theory Spec2Isabelle
  imports Complex_Main "HOL-Library.Word"
begin

section \<open>Strings and randomness\<close>

text \<open>
  A JavaScript string is a sequence of UTF-16 code units; \<open>text[i]\<close> is the string of
  length one holding the code unit at index \<open>i\<close>, and \<open>text.length\<close> counts code units.
  \<open>js\<close> turns an ASCII literal of the source into such a sequence.
\<close>

type_synonym jschar = "16 word"
type_synonym jsstring = "jschar list"

definition js :: "string \<Rightarrow> jsstring" where
  "js s = map (\<lambda>c. of_nat (of_char c)) s"

text \<open>
  \<open>Math.random()\<close> returns the next value of an unending stream of draws in \<open>[0, 1)\<close>.
  The stream still to come is the state: a call returns its head and leaves the rest.
  Draws and thresholds are real numbers; a draw is compared with the decimal constant
  the source writes, and the rounding of that constant to a double is not modelled.
\<close>

type_synonym rng = "nat \<Rightarrow> real"

definition Math_random :: "rng \<Rightarrow> real \<times> rng" where
  "Math_random rs = (rs 0, \<lambda>n. rs (Suc n))"

text \<open>A stream that starts with the listed draws and goes on with \<open>d\<close> for ever.\<close>

definition draws :: "real list \<Rightarrow> real \<Rightarrow> rng" where
  "draws ds d = (\<lambda>n. if n < length ds then ds ! n else d)"

section \<open>The character confusion table\<close>

text \<open>
  The object literal \<open>ocrErrors\<close> of \<open>introduceRealisticOCRErrors\<close>, property by property in
  the order of the source. Several keys are written twice.
\<close>

definition ocrErrors_literal :: "(string \<times> string) list" where
  "ocrErrors_literal =
    [(''O'', ''0''), (''0'', ''O''), (''I'', ''1''), (''1'', ''I''), (''l'', ''1''), (''1'', ''l''),
     (''S'', ''5''), (''5'', ''S''), (''B'', ''8''), (''8'', ''B''), (''G'', ''6''), (''6'', ''G''),
     (''Z'', ''2''), (''2'', ''Z''), (''q'', ''9''), (''9'', ''q''),
     (''m'', ''n''), (''n'', ''m''), (''u'', ''v''), (''v'', ''u''), (''c'', ''e''), (''e'', ''c''),
     (''a'', ''o''), (''o'', ''a''), (''h'', ''b''), (''b'', ''h''), (''p'', ''q''), (''q'', ''p''),
     (''r'', ''n''), (''n'', ''r''), (''f'', ''t''), (''t'', ''f''), (''i'', ''j''), (''j'', ''i''),
     (''C'', ''c''), (''c'', ''C''), (''P'', ''p''), (''p'', ''P''), (''K'', ''k''), (''k'', ''K''),
     (''V'', ''v''), (''v'', ''V''), (''W'', ''w''), (''w'', ''W''), (''X'', ''x''), (''x'', ''X''),
     (''Y'', ''y''), (''y'', ''Y''), (''Z'', ''z''), (''z'', ''Z'')]"

text \<open>
  Evaluating an object literal defines its properties one after the other on a fresh
  object; defining a key again replaces its value.
\<close>

definition define_property :: "string \<times> string \<Rightarrow> (jsstring \<rightharpoonup> jsstring) \<Rightarrow> (jsstring \<rightharpoonup> jsstring)" where
  "define_property kv obj = obj(js (fst kv) \<mapsto> js (snd kv))"

definition ocrErrors :: "jsstring \<rightharpoonup> jsstring" where
  "ocrErrors = fold define_property ocrErrors_literal Map.empty"

text \<open>
  \<open>if (ocrErrors[char])\<close> tests the looked-up value for truthiness: a missing property
  reads as \<open>undefined\<close>, which is falsy, and so is the empty string.
\<close>

fun truthy :: "jsstring option \<Rightarrow> bool" where
  "truthy None = False"
| "truthy (Some v) = (v \<noteq> [])"

section \<open>The character-level corruption pass\<close>

definition errorRate :: real where
  "errorRate = 0.15"

text \<open>
  The \<open>for\<close> loop of \<open>introduceRealisticOCRErrors\<close>: \<open>i\<close> is the loop index, \<open>result\<close> the
  string built so far. \<open>continue\<close> goes to the next index without appending. The
  conditions are evaluated left to right, so a draw is made only when its test is reached.
\<close>

function introduceRealisticOCRErrors_loop :: "jsstring \<Rightarrow> nat \<Rightarrow> jsstring \<Rightarrow> rng \<Rightarrow> jsstring \<times> rng" where
  "introduceRealisticOCRErrors_loop text i result rs =
    (if i < length text then
       (let char = [text ! i];
            d1 = Math_random rs
        in if fst d1 < errorRate then
             (if truthy (ocrErrors char) then
                introduceRealisticOCRErrors_loop text (i + 1) (result @ the (ocrErrors char)) (snd d1)
              else
                (let d2 = Math_random (snd d1)
                 in if fst d2 < 0.3 then
                      introduceRealisticOCRErrors_loop text (i + 1) result (snd d2)
                    else
                      (let d3 = Math_random (snd d2)
                       in if fst d3 < 0.2 then
                            introduceRealisticOCRErrors_loop text (i + 1) (result @ char @ char) (snd d3)
                          else
                            introduceRealisticOCRErrors_loop text (i + 1) (result @ char) (snd d3))))
           else
             introduceRealisticOCRErrors_loop text (i + 1) (result @ char) (snd d1))
     else (result, rs))"
  by pat_completeness auto
termination
  by (relation "measure (\<lambda>(text, i, result, rs). length text - i)") auto

declare introduceRealisticOCRErrors_loop.simps [simp del]

definition introduceRealisticOCRErrors :: "jsstring \<Rightarrow> rng \<Rightarrow> jsstring \<times> rng" where
  "introduceRealisticOCRErrors text rs = introduceRealisticOCRErrors_loop text 0 [] rs"

subsection \<open>The pass as the specification words it\<close>

text \<open>
  What one character emits, following the specification's description of the pass: a
  first draw below 0.15 selects the error branch; there a character with a table entry
  emits the mapped character; otherwise a second draw below 0.3 emits nothing, otherwise
  a third draw below 0.2 emits the character twice, otherwise the character; a first draw
  at or above 0.15 emits the character.
\<close>

definition spec_emission :: "jschar \<Rightarrow> rng \<Rightarrow> jsstring \<times> rng" where
  "spec_emission c rs =
    (if rs 0 < 0.15 then
       (case ocrErrors [c] of
          Some mapped \<Rightarrow> (mapped, \<lambda>n. rs (n + 1))
        | None \<Rightarrow>
            (if rs 1 < 0.3 then ([], \<lambda>n. rs (n + 2))
             else if rs 2 < 0.2 then ([c, c], \<lambda>n. rs (n + 3))
             else ([c], \<lambda>n. rs (n + 3))))
     else ([c], \<lambda>n. rs (n + 1)))"

text \<open>The left-to-right concatenation of the emissions, each on the draws the earlier ones left.\<close>

fun spec_char_pass :: "jsstring \<Rightarrow> rng \<Rightarrow> jsstring \<times> rng" where
  "spec_char_pass [] rs = ([], rs)"
| "spec_char_pass (c # cs) rs =
    (let e = spec_emission c rs;
         r = spec_char_pass cs (snd e)
     in (fst e @ fst r, snd r))"

section \<open>Regular expressions of the formatting pass\<close>

text \<open>
  The character classes of the three patterns. Without the \<open>u\<close> and \<open>i\<close> flags \<open>\w\<close> is
  \<open>[A-Za-z0-9_]\<close>; \<open>\s\<close> is the white space and line terminator code units of
  ECMAScript: TAB, LF, VT, FF, CR, SP, NBSP, U+1680, U+2000 to U+200A, U+2028, U+2029,
  U+202F, U+205F, U+3000 and U+FEFF.
\<close>

definition is_word :: "jschar \<Rightarrow> bool" where
  "is_word c =
    ((0x41 \<le> c \<and> c \<le> 0x5A) \<or> (0x61 \<le> c \<and> c \<le> 0x7A) \<or> (0x30 \<le> c \<and> c \<le> 0x39) \<or> c = 0x5F)"

definition is_space :: "jschar \<Rightarrow> bool" where
  "is_space c =
    (c = 0x09 \<or> c = 0x0A \<or> c = 0x0B \<or> c = 0x0C \<or> c = 0x0D \<or> c = 0x20 \<or> c = 0xA0 \<or>
     c = 0x1680 \<or> (0x2000 \<le> c \<and> c \<le> 0x200A) \<or> c = 0x2028 \<or> c = 0x2029 \<or>
     c = 0x202F \<or> c = 0x205F \<or> c = 0x3000 \<or> c = 0xFEFF)"

text \<open>
  The patterns are sequences of a character class, taken once or with the greedy
  quantifier \<open>+\<close>. \<open>(\w+)\s+(\w+)\<close> is \<open>[Plus is_word, Plus is_space, Plus is_word]\<close>,
  \<open>\s+\<close> is \<open>[Plus is_space]\<close> and \<open>(\w)\<close> is \<open>[One is_word]\<close>.
\<close>

datatype atom = One "jschar \<Rightarrow> bool" | Plus "jschar \<Rightarrow> bool"

text \<open>
  A greedy \<open>+\<close> first takes the longest run of the class and lets the rest of the pattern
  continue from there; when the rest fails it gives one character back and tries again,
  down to one character. \<open>k\<close> is the rest of the pattern.
\<close>

fun try_lengths :: "(jsstring \<Rightarrow> (jsstring list \<times> jsstring) option) \<Rightarrow> jsstring \<Rightarrow> nat \<Rightarrow> (jsstring list \<times> jsstring) option" where
  "try_lengths k xs 0 = None"
| "try_lengths k xs (Suc n) =
    (case k (drop (Suc n) xs) of
       Some (gs, r) \<Rightarrow> Some (take (Suc n) xs # gs, r)
     | None \<Rightarrow> try_lengths k xs n)"

text \<open>
  Matching a pattern at the start of \<open>xs\<close>: the substring each atom matched, in order, and
  what is left of \<open>xs\<close> after the match.
\<close>

fun match_here :: "atom list \<Rightarrow> jsstring \<Rightarrow> (jsstring list \<times> jsstring) option" where
  "match_here [] xs = Some ([], xs)"
| "match_here (One p # as) xs =
    (case xs of
       [] \<Rightarrow> None
     | x # xs' \<Rightarrow>
         if p x then
           (case match_here as xs' of
              Some (gs, r) \<Rightarrow> Some ([x] # gs, r)
            | None \<Rightarrow> None)
         else None)"
| "match_here (Plus p # as) xs = try_lengths (match_here as) xs (length (takeWhile p xs))"

text \<open>
  \<open>text.replace(re, f)\<close> with a global pattern and a function: the matches are found from
  left to right, each search starting where the last match ended and trying every start
  position in turn; \<open>f\<close> is called once per match, in order, with the matched substring
  and the substrings of the atoms, and its result replaces the match. What lies between
  matches is copied. After an empty match the search moves on by one code unit.
\<close>

function replace_global :: "atom list \<Rightarrow> (jsstring \<Rightarrow> jsstring list \<Rightarrow> rng \<Rightarrow> jsstring \<times> rng) \<Rightarrow> jsstring \<Rightarrow> rng \<Rightarrow> jsstring \<times> rng" where
  "replace_global re f xs rs =
    (case match_here re xs of
       Some (gs, r) \<Rightarrow>
         (let out = f (take (length xs - length r) xs) gs rs
          in if length r < length xs then
               (let rest = replace_global re f r (snd out)
                in (fst out @ fst rest, snd rest))
             else
               (case xs of
                  [] \<Rightarrow> out
                | x # xs' \<Rightarrow>
                    (let rest = replace_global re f xs' (snd out)
                     in (fst out @ x # fst rest, snd rest))))
     | None \<Rightarrow>
         (case xs of
            [] \<Rightarrow> ([], rs)
          | x # xs' \<Rightarrow>
              (let rest = replace_global re f xs' rs
               in (x # fst rest, snd rest))))"
  by pat_completeness auto
termination
  by (relation "measure (\<lambda>(re, f, xs, rs). length xs)") auto

declare replace_global.simps [simp del]

section \<open>The formatting-noise pass\<close>

text \<open>
  The three replacement functions of \<open>addOCRFormattingIssues\<close>, in the order of the
  source. Each gets the matched substring and the substrings of the atoms; the capture
  groups \<open>word1\<close> and \<open>word2\<close> of the first pattern are those of its first and third
  atom.
\<close>

definition line_break_callback :: "jsstring \<Rightarrow> jsstring list \<Rightarrow> rng \<Rightarrow> jsstring \<times> rng" where
  "line_break_callback match gs rs =
    (let d = Math_random rs;
         word1 = gs ! 0;
         word2 = gs ! 2
     in if fst d < 0.1 then (word1 @ [0x0A] @ word2, snd d) else (match, snd d))"

definition space_removal_callback :: "jsstring \<Rightarrow> jsstring list \<Rightarrow> rng \<Rightarrow> jsstring \<times> rng" where
  "space_removal_callback match gs rs =
    (let d = Math_random rs
     in if fst d < 0.15 then ([], snd d) else (match, snd d))"

definition space_insertion_callback :: "jsstring \<Rightarrow> jsstring list \<Rightarrow> rng \<Rightarrow> jsstring \<times> rng" where
  "space_insertion_callback match gs rs =
    (let d = Math_random rs
     in if fst d < 0.08 then (match @ [0x20], snd d) else (match, snd d))"

definition add_line_breaks :: "jsstring \<Rightarrow> rng \<Rightarrow> jsstring \<times> rng" where
  "add_line_breaks xs rs =
    replace_global [Plus is_word, Plus is_space, Plus is_word] line_break_callback xs rs"

definition remove_spaces :: "jsstring \<Rightarrow> rng \<Rightarrow> jsstring \<times> rng" where
  "remove_spaces xs rs = replace_global [Plus is_space] space_removal_callback xs rs"

definition add_spaces :: "jsstring \<Rightarrow> rng \<Rightarrow> jsstring \<times> rng" where
  "add_spaces xs rs = replace_global [One is_word] space_insertion_callback xs rs"

definition addOCRFormattingIssues :: "jsstring \<Rightarrow> rng \<Rightarrow> jsstring \<times> rng" where
  "addOCRFormattingIssues text rs =
    (let r1 = add_line_breaks text rs;
         r2 = remove_spaces (fst r1) (snd r1)
     in add_spaces (fst r2) (snd r2))"

section \<open>The field orchestrator\<close>

text \<open>
  The fields of the parsed response hold a string, \<open>null\<close>, or are absent (\<open>undefined\<close>).
  Values of other JSON types are outside this model: the specification leaves them
  undefined.
\<close>

datatype jsvalue = Undefined | Null | Str jsstring

record medication =
  med_name :: jsvalue
  med_dosage :: jsvalue
  med_frequency :: jsvalue
  med_duration :: jsvalue
  med_instructions :: jsvalue

text \<open>\<open>pd_medications\<close> is \<open>None\<close> when \<open>parsedData.medications\<close> is not an array.\<close>

record parsedData =
  pd_text :: jsvalue
  pd_medications :: "medication list option"
  pd_doctorName :: jsvalue
  pd_prescriptionDate :: jsvalue

text \<open>\<open>v ? introduceRealisticOCRErrors(v) : v\<close>: only a non-empty string is truthy.\<close>

fun corrupt_if_truthy :: "jsvalue \<Rightarrow> rng \<Rightarrow> jsvalue \<times> rng" where
  "corrupt_if_truthy (Str s) rs =
    (if s \<noteq> [] then
       (let r = introduceRealisticOCRErrors s rs in (Str (fst r), snd r))
     else (Str s, rs))"
| "corrupt_if_truthy v rs = (v, rs)"

text \<open>
  The arrow function given to \<open>medications.map\<close>: the properties of the object literal
  are evaluated in the order written.
\<close>

definition corrupt_medication :: "medication \<Rightarrow> rng \<Rightarrow> medication \<times> rng" where
  "corrupt_medication med rs =
    (let n = corrupt_if_truthy (med_name med) rs;
         d = corrupt_if_truthy (med_dosage med) (snd n);
         f = corrupt_if_truthy (med_frequency med) (snd d);
         u = corrupt_if_truthy (med_duration med) (snd f);
         i = corrupt_if_truthy (med_instructions med) (snd u)
     in (\<lparr>med_name = fst n, med_dosage = fst d, med_frequency = fst f,
          med_duration = fst u, med_instructions = fst i\<rparr>, snd i))"

fun map_medications :: "medication list \<Rightarrow> rng \<Rightarrow> medication list \<times> rng" where
  "map_medications [] rs = ([], rs)"
| "map_medications (med # meds) rs =
    (let a = corrupt_medication med rs;
         b = map_medications meds (snd a)
     in (fst a # fst b, snd b))"

text \<open>
  The block of \<open>POST\<close> guarded by \<open>parsedData.text && Array.isArray(parsedData.medications)\<close>.
  \<open>None\<close> stands for the guard failing, after which the handler goes on to its fallback.
  The text is corrupted first, then the medications from left to right, then the doctor
  name, each on the draws the one before left; \<open>prescriptionDate\<close> is not assigned.
\<close>

fun orchestrate :: "parsedData \<Rightarrow> rng \<Rightarrow> (parsedData \<times> rng) option" where
  "orchestrate pd rs =
    (case (pd_text pd, pd_medications pd) of
       (Str t, Some meds) \<Rightarrow>
         if t \<noteq> [] then
           (let a = introduceRealisticOCRErrors t rs;
                b = addOCRFormattingIssues (fst a) (snd a);
                m = map_medications meds (snd b);
                d = corrupt_if_truthy (pd_doctorName pd) (snd m)
            in Some (pd\<lparr>pd_text := Str (fst b), pd_medications := Some (fst m),
                        pd_doctorName := fst d\<rparr>, snd d))
         else None
     | _ \<Rightarrow> None)"

text \<open>
  The fallback of \<open>POST\<close>: the whole text of the upstream response, through both passes,
  with no medications and an empty doctor name and date.
\<close>

definition fallback :: "jsstring \<Rightarrow> rng \<Rightarrow> parsedData \<times> rng" where
  "fallback extractedText rs =
    (let a = introduceRealisticOCRErrors extractedText rs;
         fallbackText = addOCRFormattingIssues (fst a) (snd a)
     in (\<lparr>pd_text = Str (fst fallbackText), pd_medications = Some [],
          pd_doctorName = Str [], pd_prescriptionDate = Str []\<rparr>, snd fallbackText))"

text \<open>
  What \<open>POST\<close> answers once the upstream call has returned: \<open>extractedText\<close> is the text
  of the first candidate, \<open>parsed\<close> what \<open>JSON.parse\<close> makes of the part of it between the
  first \<open>{\<close> and the last \<open>}\<close>, \<open>None\<close> when there is no such part or parsing throws (the
  exception is caught and logged). The guarded block answers when its guard holds;
  in every other case the handler falls through to the fallback.
\<close>

definition POST_response :: "jsstring \<Rightarrow> parsedData option \<Rightarrow> rng \<Rightarrow> parsedData \<times> rng" where
  "POST_response extractedText parsed rs =
    (case parsed of
       Some parsedData \<Rightarrow>
         (case orchestrate parsedData rs of
            Some response \<Rightarrow> response
          | None \<Rightarrow> fallback extractedText rs)
     | None \<Rightarrow> fallback extractedText rs)"

section \<open>The formatting transforms as scans\<close>

text \<open>
  The three transforms written as direct left-to-right scans of the string, to be
  compared with the pattern replacements above.

  Line breaks: at each position, a maximal run of word characters followed by a maximal
  run of white space and a maximal run of word characters is one match; a draw below 0.1
  puts a single line break in place of the white space. The scan goes on after the
  second word. Where there is no such match the character is copied and the scan moves
  one position on.
\<close>

function spec_add_line_breaks :: "jsstring \<Rightarrow> rng \<Rightarrow> jsstring \<times> rng" where
  "spec_add_line_breaks xs rs =
    (let word1 = takeWhile is_word xs;
         gap = takeWhile is_space (dropWhile is_word xs);
         word2 = takeWhile is_word (dropWhile is_space (dropWhile is_word xs));
         rest = dropWhile is_word (dropWhile is_space (dropWhile is_word xs))
     in if word1 \<noteq> [] \<and> gap \<noteq> [] \<and> word2 \<noteq> [] then
          (let r = spec_add_line_breaks rest (\<lambda>n. rs (Suc n))
           in ((if rs 0 < 0.1 then word1 @ [0x0A] @ word2 else word1 @ gap @ word2) @ fst r, snd r))
        else
          (case xs of
             [] \<Rightarrow> ([], rs)
           | x # xs' \<Rightarrow>
               (let r = spec_add_line_breaks xs' rs in (x # fst r, snd r))))"
  by pat_completeness auto
termination
proof (relation "measure (\<lambda>(xs, rs). length xs)", goal_cases)
  case 1
  show ?case by simp
next
  case (2 xs rs word1 gap word2 rest)
  have "length rest \<le> length (dropWhile is_word xs)"
    unfolding 2
    by (meson length_dropWhile_le order_trans)
  moreover have "length (takeWhile is_word xs) + length (dropWhile is_word xs) = length xs"
    by (metis length_append takeWhile_dropWhile_id)
  moreover have "0 < length (takeWhile is_word xs)"
    using 2 by simp
  ultimately have "length rest < length xs"
    by linarith
  then show ?case by simp
next
  case 3
  then show ?case by simp
qed

text \<open>
  Space removal: each maximal run of white space is one match; a draw below 0.15 deletes
  it.
\<close>

function spec_remove_spaces :: "jsstring \<Rightarrow> rng \<Rightarrow> jsstring \<times> rng" where
  "spec_remove_spaces xs rs =
    (case xs of
       [] \<Rightarrow> ([], rs)
     | x # xs' \<Rightarrow>
         if is_space x then
           (let r = spec_remove_spaces (dropWhile is_space xs') (\<lambda>n. rs (Suc n))
            in ((if rs 0 < 0.15 then [] else x # takeWhile is_space xs') @ fst r, snd r))
         else
           (let r = spec_remove_spaces xs' rs in (x # fst r, snd r)))"
  by pat_completeness auto
termination
  by (relation "measure (\<lambda>(xs, rs). length xs)") (auto simp: length_dropWhile_le less_Suc_eq_le)

text \<open>
  Space insertion: each word character is one match; a draw below 0.08 puts a space
  after it. Other characters are copied without a draw.
\<close>

fun spec_add_spaces :: "jsstring \<Rightarrow> rng \<Rightarrow> jsstring \<times> rng" where
  "spec_add_spaces [] rs = ([], rs)"
| "spec_add_spaces (c # cs) rs =
    (if is_word c then
       (let r = spec_add_spaces cs (\<lambda>n. rs (Suc n))
        in ((if rs 0 < 0.08 then [c, 0x20] else [c]) @ fst r, snd r))
     else
       (let r = spec_add_spaces cs rs in (c # fst r, snd r)))"

declare spec_add_line_breaks.simps [simp del]
declare spec_remove_spaces.simps [simp del]

section \<open>Notions used to state the orchestrator's contract\<close>

text \<open>A field that is absent, \<open>null\<close> or the empty string.\<close>

fun absent_or_empty :: "jsvalue \<Rightarrow> bool" where
  "absent_or_empty Undefined = True"
| "absent_or_empty Null = True"
| "absent_or_empty (Str s) = (s = [])"

text \<open>
  What the character-level pass alone makes of a field on the stream \<open>rs\<close>: an absent,
  \<open>null\<close> or empty field is left as it is and no draw is made; a non-empty string is
  replaced by the output of \<open>introduceRealisticOCRErrors\<close> on it. \<open>draws_after\<close> is the
  stream this leaves.
\<close>

fun char_pass_on :: "jsvalue \<Rightarrow> rng \<Rightarrow> jsvalue" where
  "char_pass_on (Str s) rs =
    (if s = [] then Str [] else Str (fst (introduceRealisticOCRErrors s rs)))"
| "char_pass_on Null rs = Null"
| "char_pass_on Undefined rs = Undefined"

fun draws_after :: "jsvalue \<Rightarrow> rng \<Rightarrow> rng" where
  "draws_after (Str s) rs = (if s = [] then rs else snd (introduceRealisticOCRErrors s rs))"
| "draws_after Null rs = rs"
| "draws_after Undefined rs = rs"

text \<open>
  The stream left after the five sub-fields of a medication, taken in the order name,
  dosage, frequency, duration, instructions.
\<close>

definition draws_after_medication :: "medication \<Rightarrow> rng \<Rightarrow> rng" where
  "draws_after_medication med rs =
    draws_after (med_instructions med) (draws_after (med_duration med)
      (draws_after (med_frequency med) (draws_after (med_dosage med)
        (draws_after (med_name med) rs))))"

text \<open>
  A computation on the stream of draws reads at most \<open>n\<close> draws: it takes some \<open>k \<le> n\<close>
  draws off the front of the stream, and on any other stream with the same first \<open>k\<close>
  draws it returns the same value and takes the same \<open>k\<close> draws.
\<close>

definition reads_at_most :: "nat \<Rightarrow> (rng \<Rightarrow> 'a \<times> rng) \<Rightarrow> bool" where
  "reads_at_most n f =
    (\<forall>rs. \<exists>k\<le>n. snd (f rs) = (\<lambda>i. rs (i + k)) \<and>
       (\<forall>rs'. (\<forall>i<k. rs' i = rs i) \<longrightarrow> f rs' = (fst (f rs), \<lambda>i. rs' (i + k))))"

text \<open>
  The record of the specification's scenario, a medication with name \<open>"Aspirin"\<close>, an
  empty dosage and a \<open>null\<close> frequency, and what the orchestrator makes of it when every
  draw is 0.
\<close>

definition example_record :: parsedData where
  "example_record =
    \<lparr>pd_text = Str (js ''Rx''),
     pd_medications = Some [\<lparr>med_name = Str (js ''Aspirin''), med_dosage = Str [],
        med_frequency = Null, med_duration = Undefined, med_instructions = Undefined\<rparr>],
     pd_doctorName = Null,
     pd_prescriptionDate = Str (js ''2024-01-01'')\<rparr>"

definition example_corrupted :: parsedData where
  "example_corrupted =
    \<lparr>pd_text = Str (js ''X ''),
     pd_medications = Some [\<lparr>med_name = Str (js ''Pjnjr''), med_dosage = Str [],
        med_frequency = Null, med_duration = Undefined, med_instructions = Undefined\<rparr>],
     pd_doctorName = Null,
     pd_prescriptionDate = Str (js ''2024-01-01'')\<rparr>"

text \<open>The upstream response that parses to \<open>example_record\<close>.\<close>

definition example_response :: jsstring where
  \<open>example_response = js (''{"text":"Rx","medications":[{"name":"Aspirin","dosage":"",'' @
     ''"frequency":null}],"doctorName":null,"prescriptionDate":"2024-01-01"}'')\<close>

text \<open>
  An upstream response whose text field is the empty string, and the record it parses
  to.
\<close>

definition empty_text_response :: jsstring where
  \<open>empty_text_response = js ''{"text":"","medications":[],"prescriptionDate":"2024"}''\<close>

definition empty_text_record :: parsedData where
  "empty_text_record =
    \<lparr>pd_text = Str [], pd_medications = Some [], pd_doctorName = Undefined,
     pd_prescriptionDate = Str (js ''2024'')\<rparr>"

section \<open>Properties\<close>

subsection \<open>Evaluating streams of draws\<close>

lemma draws_simps [simp]:
  "draws ds d 0 = (if ds = [] then d else hd ds)"
  "(\<lambda>n. draws ds d (Suc n)) = draws (tl ds) d"
  by (auto simp: draws_def fun_eq_iff hd_conv_nth nth_tl)

lemma draws_Suc [simp]: "draws ds d (Suc n) = draws (tl ds) d n"
  by (auto simp: draws_def nth_tl)

subsection \<open>The confusion table\<close>

lemma fold_define_property:
  "fold define_property kvs obj k =
     (case filter (\<lambda>kv. js (fst kv) = k) kvs of
        [] \<Rightarrow> obj k
      | kv # rest \<Rightarrow> Some (js (snd (last (kv # rest)))))"
proof (induction kvs arbitrary: obj)
  case Nil
  show ?case by simp
next
  case (Cons a kvs)
  show ?case
    apply (simp only: fold_simps o_apply Cons.IH)
    apply (auto simp: define_property_def split: list.splits)
    done
qed

lemma ocrErrors_lookup:
  "ocrErrors k =
     (case filter (\<lambda>kv. js (fst kv) = k) ocrErrors_literal of
        [] \<Rightarrow> None
      | kv # rest \<Rightarrow> Some (js (snd (last (kv # rest)))))"
  by (simp add: ocrErrors_def fold_define_property)

lemma literal_values_single: "list_all (\<lambda>kv. length (snd kv) = 1) ocrErrors_literal"
  by (simp add: ocrErrors_literal_def)

lemma ocrErrors_value_length:
  assumes "ocrErrors k = Some v"
  shows "length v = 1"
proof -
  let ?f = "filter (\<lambda>kv. js (fst kv) = k) ocrErrors_literal"
  from assms obtain kv rest where f: "?f = kv # rest" and v: "v = js (snd (last (kv # rest)))"
    by (auto simp: ocrErrors_lookup split: list.splits)
  have "last (kv # rest) \<in> set ?f"
    using f by (metis last_in_set list.distinct(1))
  then have "last (kv # rest) \<in> set ocrErrors_literal"
    by simp
  then have "length (snd (last (kv # rest))) = 1"
    using literal_values_single by (simp add: list_all_iff)
  then show ?thesis
    by (simp add: v js_def)
qed

lemma truthy_ocrErrors: "truthy (ocrErrors k) = (ocrErrors k \<noteq> None)"
proof (cases "ocrErrors k")
  case None
  then show ?thesis by simp
next
  case (Some v)
  then have "length v = 1" by (rule ocrErrors_value_length)
  then have "v \<noteq> []" by auto
  with Some show ?thesis by simp
qed

subsection \<open>The loop and the concatenation of emissions\<close>

lemma loop_spec:
  "introduceRealisticOCRErrors_loop tx i result rs =
     (result @ fst (spec_char_pass (drop i tx) rs), snd (spec_char_pass (drop i tx) rs))"
proof (induction "length tx - i" arbitrary: i result rs)
  case 0
  then show ?case
    by (simp add: introduceRealisticOCRErrors_loop.simps [of tx i])
next
  case (Suc n)
  then have lt: "i < length tx" and n: "n = length tx - (i + 1)"
    by simp_all
  have d: "drop i tx = tx ! i # drop (i + 1) tx"
    using lt by (simp add: Cons_nth_drop_Suc)
  note IH = Suc.hyps(1) [OF n]
  show ?case
    apply (subst introduceRealisticOCRErrors_loop.simps)
    apply (simp only: IH d)
    using lt
    apply (simp add: Let_def spec_emission_def Math_random_def errorRate_def truthy_ocrErrors
                eval_nat_numeral split: option.splits)
    done
qed

lemma char_pass_spec: "introduceRealisticOCRErrors tx rs = spec_char_pass tx rs"
  by (simp add: introduceRealisticOCRErrors_def loop_spec)

lemma spec_emission_length: "length (fst (spec_emission c rs)) \<le> 2"
  by (auto simp: spec_emission_def dest: ocrErrors_value_length split: option.splits)

lemma spec_char_pass_length: "length (fst (spec_char_pass xs rs)) \<le> 2 * length xs"
proof (induction xs arbitrary: rs)
  case Nil
  show ?case by simp
next
  case (Cons c cs)
  have "length (fst (spec_emission c rs)) \<le> 2"
    by (rule spec_emission_length)
  moreover have "length (fst (spec_char_pass cs (snd (spec_emission c rs)))) \<le> 2 * length cs"
    by (rule Cons.IH)
  ultimately show ?case
    by (simp add: Let_def)
qed

text \<open>
  C1. The output of \<open>introduceRealisticOCRErrors\<close> is the left-to-right concatenation of
  the per-character emissions: a first draw below 0.15 selects the error branch, where a
  table entry gives the mapped character, otherwise a second draw below 0.3 drops the
  character, otherwise a third draw below 0.2 doubles it, otherwise it is kept; a first
  draw at or above 0.15 keeps it. The third draw is made only when the second test fails.
\<close>

theorem char_pass_concatenates_emissions:
  "introduceRealisticOCRErrors text rs = spec_char_pass text rs"
  by (simp add: introduceRealisticOCRErrors_def loop_spec)

text \<open>
  C3. For an input of length N the output of the character-level pass has at most 2N
  characters: from any loop state, each remaining character adds at most two characters
  to the result, and a single character yields zero, one or two.
\<close>

theorem char_pass_length_bound:
  "length (fst (introduceRealisticOCRErrors text rs)) \<le> 2 * length text \<and>
   length (fst (introduceRealisticOCRErrors_loop text i result rs))
     \<le> length result + 2 * (length text - i) \<and>
   length (fst (introduceRealisticOCRErrors [c] rs)) \<in> {0, 1, 2}"
proof -
  have a: "length (fst (introduceRealisticOCRErrors text rs)) \<le> 2 * length text"
    by (simp add: char_pass_spec spec_char_pass_length)
  have "length (fst (spec_char_pass (drop i text) rs)) \<le> 2 * length (drop i text)"
    by (rule spec_char_pass_length)
  then have b: "length (fst (introduceRealisticOCRErrors_loop text i result rs))
      \<le> length result + 2 * (length text - i)"
    by (simp add: loop_spec)
  have "length (fst (introduceRealisticOCRErrors [c] rs)) \<le> 2 * length [c]"
    unfolding char_pass_spec by (rule spec_char_pass_length)
  then have "length (fst (introduceRealisticOCRErrors [c] rs)) = 0 \<or>
      length (fst (introduceRealisticOCRErrors [c] rs)) = 1 \<or>
      length (fst (introduceRealisticOCRErrors [c] rs)) = 2"
    by (simp del: length_0_conv) arith
  then have c: "length (fst (introduceRealisticOCRErrors [c] rs)) \<in> {0, 1, 2}"
    by (simp del: length_0_conv)
  from a b c show ?thesis by blast
qed

text \<open>
  C8. The confusion table keeps, for every key, the value of its last declaration in the
  literal; so the keys written twice read as their second value. A character without an
  entry is emitted unchanged by the corruption pass, except where the second or third
  draw drops or doubles it.
\<close>

theorem ocrErrors_last_write_wins:
  "ocrErrors k =
     (case filter (\<lambda>kv. js (fst kv) = k) ocrErrors_literal of
        [] \<Rightarrow> None
      | kv # rest \<Rightarrow> Some (js (snd (last (kv # rest))))) \<and>
   ocrErrors (js ''1'') = Some (js ''l'') \<and> ocrErrors (js ''n'') = Some (js ''r'') \<and>
   ocrErrors (js ''q'') = Some (js ''p'') \<and> ocrErrors (js ''c'') = Some (js ''C'') \<and>
   ocrErrors (js ''p'') = Some (js ''P'') \<and> ocrErrors (js ''v'') = Some (js ''V'') \<and>
   ocrErrors (js ''Z'') = Some (js ''z'') \<and>
   (ocrErrors [c] = None \<longrightarrow>
      fst (introduceRealisticOCRErrors [c] rs) =
        (if rs 0 < 0.15 then
           (if rs 1 < 0.3 then [] else if rs 2 < 0.2 then [c, c] else [c])
         else [c]))"
proof -
  have repeated:
    "ocrErrors (js ''1'') = Some (js ''l'')" "ocrErrors (js ''n'') = Some (js ''r'')"
    "ocrErrors (js ''q'') = Some (js ''p'')" "ocrErrors (js ''c'') = Some (js ''C'')"
    "ocrErrors (js ''p'') = Some (js ''P'')" "ocrErrors (js ''v'') = Some (js ''V'')"
    "ocrErrors (js ''Z'') = Some (js ''z'')"
    by (simp_all add: ocrErrors_lookup ocrErrors_literal_def js_def)
  have pass: "ocrErrors [c] = None \<longrightarrow>
      fst (introduceRealisticOCRErrors [c] rs) =
        (if rs 0 < 0.15 then
           (if rs 1 < 0.3 then [] else if rs 2 < 0.2 then [c, c] else [c])
         else [c])"
    by (simp add: char_pass_spec spec_emission_def Let_def)
  from repeated pass show ?thesis
    using ocrErrors_lookup [of k] by blast
qed

theorem ocrErrors_last_write_wins_witness:
  "ocrErrors [0x20] = None \<and>
   fst (introduceRealisticOCRErrors [0x20] (draws [0.1, 0.5, 0.1] 0)) = [0x20, 0x20]"
proof -
  have none: "ocrErrors [0x20] = None"
    by (simp add: ocrErrors_lookup ocrErrors_literal_def js_def)
  show ?thesis
    using none ocrErrors_last_write_wins [of "[0x20]" "0x20" "draws [0.1, 0.5, 0.1] 0"]
    by (simp add: draws_def)
qed

subsection \<open>Matching the three patterns\<close>

lemma word_not_space: "is_word c \<Longrightarrow> \<not> is_space c"
  unfolding is_word_def is_space_def by (auto simp: word_le_nat_alt)

lemma try_lengths_none:
  "(\<And>m. 0 < m \<Longrightarrow> m \<le> n \<Longrightarrow> k (drop m xs) = None) \<Longrightarrow> try_lengths k xs n = None"
  by (induction n) auto

lemma match_here_single_plus:
  "match_here [Plus p] xs =
     (if takeWhile p xs = [] then None else Some ([takeWhile p xs], dropWhile p xs))"
proof (cases "length (takeWhile p xs)")
  case 0
  then show ?thesis by simp
next
  case (Suc n)
  have "takeWhile p xs @ dropWhile p xs = xs"
    by simp
  then have t: "take (Suc n) xs = takeWhile p xs" and d: "drop (Suc n) xs = dropWhile p xs"
    using Suc by (metis append_eq_conv_conj)+
  from Suc have ne: "takeWhile p xs \<noteq> []"
    by auto
  have "match_here [Plus p] xs = try_lengths (match_here []) xs (Suc n)"
    by (simp add: Suc)
  also have "\<dots> = Some ([takeWhile p xs], dropWhile p xs)"
    by (simp add: t d)
  finally show ?thesis
    using ne by (simp del: takeWhile_eq_Nil_iff match_here.simps)
qed

lemma match_here_plus_plus:
  assumes dis: "\<And>c. p c \<Longrightarrow> \<not> q c"
  shows "match_here (Plus p # Plus q # as) xs =
     (if takeWhile p xs = [] then None
      else (case match_here (Plus q # as) (dropWhile p xs) of
              Some (gs, r) \<Rightarrow> Some (takeWhile p xs # gs, r)
            | None \<Rightarrow> None))"
proof (cases "length (takeWhile p xs)")
  case 0
  then show ?thesis by simp
next
  case (Suc n)
  have "takeWhile p xs @ dropWhile p xs = xs"
    by simp
  then have t: "take (Suc n) xs = takeWhile p xs" and d: "drop (Suc n) xs = dropWhile p xs"
    using Suc by (metis append_eq_conv_conj)+
  from Suc have ne: "takeWhile p xs \<noteq> []"
    by auto
  have shorter: "match_here (Plus q # as) (drop m xs) = None" if "0 < m" "m \<le> n" for m
  proof -
    from that Suc have m: "m < length (takeWhile p xs)"
      by simp
    then have "takeWhile p xs ! m \<in> set (takeWhile p xs)"
      by (rule nth_mem)
    then have "p (takeWhile p xs ! m)"
      by (rule set_takeWhileD [THEN conjunct2])
    then have "p (xs ! m)"
      using m by (simp add: takeWhile_nth)
    then have nq: "\<not> q (xs ! m)"
      by (rule dis)
    have "m < length xs"
      using m length_takeWhile_le [of p xs] by simp
    then have "drop m xs = xs ! m # drop (Suc m) xs"
      by (simp add: Cons_nth_drop_Suc)
    then show ?thesis
      using nq by simp
  qed
  have none: "try_lengths (match_here (Plus q # as)) xs n = None"
    by (rule try_lengths_none) (rule shorter)
  have "match_here (Plus p # Plus q # as) xs = try_lengths (match_here (Plus q # as)) xs (Suc n)"
    by (simp add: Suc)
  also have "\<dots> = (case match_here (Plus q # as) (dropWhile p xs) of
              Some (gs, r) \<Rightarrow> Some (takeWhile p xs # gs, r)
            | None \<Rightarrow> None)"
    by (simp add: t d none del: match_here.simps split: option.splits)
  finally show ?thesis
    using ne by (simp del: takeWhile_eq_Nil_iff match_here.simps)
qed

lemma space_not_word: "is_space c \<Longrightarrow> \<not> is_word c"
  using word_not_space by blast

lemma match_line_break_pattern:
  "match_here [Plus is_word, Plus is_space, Plus is_word] xs =
     (let word1 = takeWhile is_word xs;
          gap = takeWhile is_space (dropWhile is_word xs);
          word2 = takeWhile is_word (dropWhile is_space (dropWhile is_word xs));
          rest = dropWhile is_word (dropWhile is_space (dropWhile is_word xs))
      in if word1 \<noteq> [] \<and> gap \<noteq> [] \<and> word2 \<noteq> [] then Some ([word1, gap, word2], rest)
         else None)"
  by (simp add: match_here_plus_plus [of is_word is_space, OF word_not_space]
      match_here_plus_plus [of is_space is_word, OF space_not_word]
      match_here_single_plus Let_def
      del: match_here.simps takeWhile_eq_Nil_iff)

lemma match_one:
  "match_here [One p] xs =
     (case xs of [] \<Rightarrow> None | x # xs' \<Rightarrow> if p x then Some ([[x]], xs') else None)"
  by (simp split: list.splits)

lemma add_spaces_spec: "add_spaces xs rs = spec_add_spaces xs rs"
proof (induction xs arbitrary: rs)
  case Nil
  show ?case
    by (simp add: add_spaces_def replace_global.simps [of _ _ "[]"])
next
  case (Cons c cs)
  show ?case
    using Cons.IH
    by (simp add: add_spaces_def replace_global.simps [of _ _ "c # cs"] Let_def
        space_insertion_callback_def Math_random_def)
qed

lemma remove_spaces_spec: "remove_spaces xs rs = spec_remove_spaces xs rs"
proof (induction "length xs" arbitrary: xs rs rule: less_induct)
  case less
  show ?case
  proof (cases xs)
    case Nil
    then show ?thesis
      by (simp add: remove_spaces_def replace_global.simps [of _ _ "[]"]
          spec_remove_spaces.simps [of "[]"] match_here_single_plus del: match_here.simps)
  next
    case (Cons x xs')
    show ?thesis
    proof (cases "is_space x")
      case True
      have len: "length (dropWhile is_space xs') < length xs"
        using Cons length_dropWhile_le [of is_space xs'] by simp
      have tk: "take (length xs - length (dropWhile is_space xs')) xs = x # takeWhile is_space xs'"
        using Cons True
        by (metis append_eq_conv_conj diff_add_inverse2 dropWhile.simps(2) length_append takeWhile.simps(2) takeWhile_dropWhile_id)
      have IH: "remove_spaces (dropWhile is_space xs') rs' = spec_remove_spaces (dropWhile is_space xs') rs'" for rs'
        using len by (rule less.hyps)
      show ?thesis
        using True len tk IH unfolding remove_spaces_def
        apply (subst replace_global.simps)
        apply (subst spec_remove_spaces.simps)
        apply (simp add: Cons match_here_single_plus Let_def space_removal_callback_def
            Math_random_def del: match_here.simps)
        done
    next
      case False
      have IH: "remove_spaces xs' rs = spec_remove_spaces xs' rs"
        using Cons by (intro less.hyps) simp
      show ?thesis
        using False IH unfolding remove_spaces_def
        apply (subst replace_global.simps)
        apply (subst spec_remove_spaces.simps)
        apply (simp add: Cons match_here_single_plus Let_def del: match_here.simps)
        done
    qed
  qed
qed

subsection \<open>The replacements are the scans\<close>

lemma split_three:
  "takeWhile is_word xs @ takeWhile is_space (dropWhile is_word xs) @
     takeWhile is_word (dropWhile is_space (dropWhile is_word xs)) @
     dropWhile is_word (dropWhile is_space (dropWhile is_word xs)) = xs"
  by simp

lemma take_all_but_suffix: "xs = pre @ suf \<Longrightarrow> take (length xs - length suf) xs = pre"
  by simp

lemma add_line_breaks_spec: "add_line_breaks xs rs = spec_add_line_breaks xs rs"
proof (induction "length xs" arbitrary: xs rs rule: less_induct)
  case less
  define word1 where "word1 = takeWhile is_word xs"
  define gap where "gap = takeWhile is_space (dropWhile is_word xs)"
  define word2 where "word2 = takeWhile is_word (dropWhile is_space (dropWhile is_word xs))"
  define rest where "rest = dropWhile is_word (dropWhile is_space (dropWhile is_word xs))"
  have xs: "xs = word1 @ gap @ word2 @ rest"
    unfolding word1_def gap_def word2_def rest_def by (rule split_three [symmetric])
  have m: "match_here [Plus is_word, Plus is_space, Plus is_word] xs =
      (if word1 \<noteq> [] \<and> gap \<noteq> [] \<and> word2 \<noteq> [] then Some ([word1, gap, word2], rest) else None)"
    unfolding word1_def gap_def word2_def rest_def
    using match_line_break_pattern [of xs] by (simp only: Let_def)
  have s: "spec_add_line_breaks xs rs =
      (if word1 \<noteq> [] \<and> gap \<noteq> [] \<and> word2 \<noteq> [] then
          (let r = spec_add_line_breaks rest (\<lambda>n. rs (Suc n))
           in ((if rs 0 < 0.1 then word1 @ [0x0A] @ word2 else word1 @ gap @ word2) @ fst r, snd r))
        else
          (case xs of
             [] \<Rightarrow> ([], rs)
           | x # xs' \<Rightarrow>
               (let r = spec_add_line_breaks xs' rs in (x # fst r, snd r))))"
    unfolding word1_def gap_def word2_def rest_def
    by (subst spec_add_line_breaks.simps) (simp only: Let_def)
  show ?case
  proof (cases "word1 \<noteq> [] \<and> gap \<noteq> [] \<and> word2 \<noteq> []")
    case True
    have lxs: "length xs = length word1 + length gap + length word2 + length rest"
      using arg_cong [OF xs, of length] by simp
    have len: "length rest < length xs"
      using True lxs by (cases word1) simp_all
    have tk: "take (length xs - length rest) xs = word1 @ gap @ word2"
      by (rule take_all_but_suffix) (use xs in simp)
    have IH: "add_line_breaks rest rs' = spec_add_line_breaks rest rs'" for rs'
      using len by (rule less.hyps)
    have "add_line_breaks xs rs =
        (let out = line_break_callback (word1 @ gap @ word2) [word1, gap, word2] rs;
             r = add_line_breaks rest (snd out)
         in (fst out @ fst r, snd r))"
      unfolding add_line_breaks_def
      by (subst replace_global.simps) (simp add: m True len tk Let_def del: match_here.simps)
    then show ?thesis
      using True by (simp add: s IH line_break_callback_def Math_random_def Let_def)
  next
    case False
    have mn: "match_here [Plus is_word, Plus is_space, Plus is_word] xs = None"
      by (simp only: m False if_False)
    have sn: "spec_add_line_breaks xs rs =
        (case xs of
           [] \<Rightarrow> ([], rs)
         | x # xs' \<Rightarrow> (let r = spec_add_line_breaks xs' rs in (x # fst r, snd r)))"
      by (simp only: s False if_False)
    show ?thesis
    proof (cases xs)
      case Nil
      have "add_line_breaks xs rs = ([], rs)"
        unfolding add_line_breaks_def
        by (subst replace_global.simps) (simp add: mn [unfolded Nil] Nil del: match_here.simps)
      then show ?thesis
        using sn Nil by simp
    next
      case (Cons x xs')
      have IH: "add_line_breaks xs' rs = spec_add_line_breaks xs' rs"
        using Cons by (intro less.hyps) simp
      have "add_line_breaks xs rs = (let r = add_line_breaks xs' rs in (x # fst r, snd r))"
        unfolding add_line_breaks_def
        by (subst replace_global.simps) (simp add: mn [unfolded Cons] Cons Let_def del: match_here.simps)
      then show ?thesis
        using sn Cons IH by (simp add: Let_def)
    qed
  qed
qed

subsection \<open>Induction over the scans\<close>

lemma line_breaks_induct [case_names Nil Match Copy]:
  assumes nil: "P []"
    and match: "\<And>xs word1 gap word2 rest.
      xs = word1 @ gap @ word2 @ rest \<Longrightarrow> word1 \<noteq> [] \<Longrightarrow> gap \<noteq> [] \<Longrightarrow> word2 \<noteq> [] \<Longrightarrow>
      list_all is_space gap \<Longrightarrow>
      (\<And>rs. spec_add_line_breaks xs rs =
        ((if rs 0 < 0.1 then word1 @ [0x0A] @ word2 else word1 @ gap @ word2) @
           fst (spec_add_line_breaks rest (\<lambda>n. rs (Suc n))),
         snd (spec_add_line_breaks rest (\<lambda>n. rs (Suc n))))) \<Longrightarrow>
      P rest \<Longrightarrow> P xs"
    and copy: "\<And>x xs.
      (\<And>rs. spec_add_line_breaks (x # xs) rs =
        (x # fst (spec_add_line_breaks xs rs), snd (spec_add_line_breaks xs rs))) \<Longrightarrow>
      P xs \<Longrightarrow> P (x # xs)"
  shows "P xs"
proof (induction "length xs" arbitrary: xs rule: less_induct)
  case less
  define word1 where "word1 = takeWhile is_word xs"
  define gap where "gap = takeWhile is_space (dropWhile is_word xs)"
  define word2 where "word2 = takeWhile is_word (dropWhile is_space (dropWhile is_word xs))"
  define rest where "rest = dropWhile is_word (dropWhile is_space (dropWhile is_word xs))"
  note defs = word1_def gap_def word2_def rest_def
  have xs: "xs = word1 @ gap @ word2 @ rest"
    unfolding defs by (rule split_three [symmetric])
  have s: "spec_add_line_breaks xs rs =
      (if word1 \<noteq> [] \<and> gap \<noteq> [] \<and> word2 \<noteq> [] then
          ((if rs 0 < 0.1 then word1 @ [0x0A] @ word2 else word1 @ gap @ word2) @
             fst (spec_add_line_breaks rest (\<lambda>n. rs (Suc n))),
           snd (spec_add_line_breaks rest (\<lambda>n. rs (Suc n))))
        else
          (case xs of
             [] \<Rightarrow> ([], rs)
           | x # xs' \<Rightarrow> (x # fst (spec_add_line_breaks xs' rs), snd (spec_add_line_breaks xs' rs))))"
    for rs
    unfolding defs
    by (subst spec_add_line_breaks.simps) (simp only: Let_def)
  show ?case
  proof (cases "word1 \<noteq> [] \<and> gap \<noteq> [] \<and> word2 \<noteq> []")
    case True
    have sp: "list_all is_space gap"
      unfolding gap_def list_all_iff by (auto dest: set_takeWhileD)
    from True have ne: "word1 \<noteq> []" "gap \<noteq> []" "word2 \<noteq> []"
      by simp_all
    have "length xs = length word1 + length gap + length word2 + length rest"
      using arg_cong [OF xs, of length] by simp
    then have "length rest < length xs"
      using ne(1) by (cases word1) simp_all
    then have IH: "P rest"
      by (rule less.hyps)
    have eq: "spec_add_line_breaks xs rs =
        ((if rs 0 < 0.1 then word1 @ [0x0A] @ word2 else word1 @ gap @ word2) @
           fst (spec_add_line_breaks rest (\<lambda>n. rs (Suc n))),
         snd (spec_add_line_breaks rest (\<lambda>n. rs (Suc n))))" for rs
      unfolding s using True by simp
    show ?thesis
      by (rule match [OF xs ne sp eq IH])
  next
    case False
    show ?thesis
    proof (cases xs)
      case Nil
      then show ?thesis by (simp add: nil)
    next
      case (Cons x xs')
      have IH: "P xs'"
        by (rule less.hyps) (simp add: Cons)
      have eq0: "spec_add_line_breaks xs rs =
          (x # fst (spec_add_line_breaks xs' rs), snd (spec_add_line_breaks xs' rs))" for rs
        by (subst s) (simp only: False if_False Cons list.case)
      have eq: "spec_add_line_breaks (x # xs') rs =
          (x # fst (spec_add_line_breaks xs' rs), snd (spec_add_line_breaks xs' rs))" for rs
        using eq0 [of rs] unfolding Cons .
      show ?thesis
        unfolding Cons by (rule copy [OF eq IH])
    qed
  qed
qed

lemma remove_spaces_induct [case_names Nil Run Copy]:
  assumes nil: "P []"
    and run: "\<And>x xs. is_space x \<Longrightarrow>
      (\<And>rs. spec_remove_spaces (x # xs) rs =
        ((if rs 0 < 0.15 then [] else x # takeWhile is_space xs) @
           fst (spec_remove_spaces (dropWhile is_space xs) (\<lambda>n. rs (Suc n))),
         snd (spec_remove_spaces (dropWhile is_space xs) (\<lambda>n. rs (Suc n))))) \<Longrightarrow>
      P (dropWhile is_space xs) \<Longrightarrow> P (x # xs)"
    and copy: "\<And>x xs. \<not> is_space x \<Longrightarrow>
      (\<And>rs. spec_remove_spaces (x # xs) rs =
        (x # fst (spec_remove_spaces xs rs), snd (spec_remove_spaces xs rs))) \<Longrightarrow>
      P xs \<Longrightarrow> P (x # xs)"
  shows "P xs"
proof (induction "length xs" arbitrary: xs rule: less_induct)
  case less
  show ?case
  proof (cases xs)
    case Nil
    then show ?thesis by (simp add: nil)
  next
    case (Cons x xs')
    show ?thesis
    proof (cases "is_space x")
      case True
      have "length (dropWhile is_space xs') < length xs"
        using length_dropWhile_le [of is_space xs'] by (simp add: Cons)
      then have IH: "P (dropWhile is_space xs')"
        by (rule less.hyps)
      have eq: "spec_remove_spaces (x # xs') rs =
        ((if rs 0 < 0.15 then [] else x # takeWhile is_space xs') @
           fst (spec_remove_spaces (dropWhile is_space xs') (\<lambda>n. rs (Suc n))),
         snd (spec_remove_spaces (dropWhile is_space xs') (\<lambda>n. rs (Suc n))))" for rs
        using True by (subst spec_remove_spaces.simps) (simp add: Let_def)
      show ?thesis
        unfolding Cons by (rule run [OF True eq IH])
    next
      case False
      have IH: "P xs'"
        by (rule less.hyps) (simp add: Cons)
      have eq: "spec_remove_spaces (x # xs') rs =
        (x # fst (spec_remove_spaces xs' rs), snd (spec_remove_spaces xs' rs))" for rs
        using False by (subst spec_remove_spaces.simps) (simp add: Let_def)
      show ?thesis
        unfolding Cons by (rule copy [OF False eq IH])
    qed
  qed
qed

subsection \<open>What the scans preserve\<close>

lemma is_space_line_break [simp]: "is_space 0x0A"
  by (simp add: is_space_def)

lemma is_space_space [simp]: "is_space 0x20"
  by (simp add: is_space_def)

lemma filter_all_space: "list_all is_space gap \<Longrightarrow> filter (\<lambda>c. \<not> is_space c) gap = []"
  by (simp add: list_all_iff)

lemma filter_takeWhile_space: "filter (\<lambda>c. \<not> is_space c) (takeWhile is_space xs) = []"
  by (induction xs) auto

lemma filter_dropWhile_space:
  "filter (\<lambda>c. \<not> is_space c) (dropWhile is_space xs) = filter (\<lambda>c. \<not> is_space c) xs"
  by (induction xs) auto

lemma line_breaks_keep_nonspace:
  "filter (\<lambda>c. \<not> is_space c) (fst (spec_add_line_breaks xs rs)) = filter (\<lambda>c. \<not> is_space c) xs"
proof (induction xs arbitrary: rs rule: line_breaks_induct)
  case Nil
  show ?case by (simp add: spec_add_line_breaks.simps [of "[]"])
next
  case (Match xs word1 gap word2 rest)
  then show ?case by (simp add: filter_all_space)
next
  case (Copy x xs)
  then show ?case by simp
qed

lemma remove_spaces_keep_nonspace:
  "filter (\<lambda>c. \<not> is_space c) (fst (spec_remove_spaces xs rs)) = filter (\<lambda>c. \<not> is_space c) xs"
proof (induction xs arbitrary: rs rule: remove_spaces_induct)
  case Nil
  show ?case by (simp add: spec_remove_spaces.simps [of "[]"])
next
  case (Run x xs)
  then show ?case by (simp add: filter_takeWhile_space filter_dropWhile_space)
next
  case (Copy x xs)
  then show ?case by simp
qed

lemma add_spaces_keep_nonspace:
  "filter (\<lambda>c. \<not> is_space c) (fst (spec_add_spaces xs rs)) = filter (\<lambda>c. \<not> is_space c) xs"
  by (induction xs arbitrary: rs) (simp_all add: Let_def)

lemma line_breaks_chars: "set (fst (spec_add_line_breaks xs rs)) \<subseteq> insert 0x0A (set xs)"
proof (induction xs arbitrary: rs rule: line_breaks_induct)
  case Nil
  show ?case by (simp add: spec_add_line_breaks.simps [of "[]"])
next
  case (Match xs word1 gap word2 rest)
  then show ?case by auto
next
  case (Copy x xs)
  then show ?case by auto
qed

lemma remove_spaces_chars: "set (fst (spec_remove_spaces xs rs)) \<subseteq> set xs"
proof (induction xs arbitrary: rs rule: remove_spaces_induct)
  case Nil
  show ?case by (simp add: spec_remove_spaces.simps [of "[]"])
next
  case (Run x xs)
  then show ?case by (auto dest: set_takeWhileD set_dropWhileD)
next
  case (Copy x xs)
  then show ?case by auto
qed

lemma add_spaces_chars: "set (fst (spec_add_spaces xs rs)) \<subseteq> insert 0x20 (set xs)"
  by (induction xs arbitrary: rs) (auto simp: Let_def)

lemma line_breaks_length: "length (fst (spec_add_line_breaks xs rs)) \<le> length xs"
proof (induction xs arbitrary: rs rule: line_breaks_induct)
  case Nil
  show ?case by (simp add: spec_add_line_breaks.simps [of "[]"])
next
  case (Match xs word1 gap word2 rest)
  from Match.hyps have "1 \<le> length gap"
    by (cases gap) simp_all
  moreover have "length (fst (spec_add_line_breaks rest (\<lambda>n. rs (Suc n)))) \<le> length rest"
    by (rule Match.IH)
  ultimately show ?case
    using Match.hyps by simp
next
  case (Copy x xs)
  then show ?case by simp
qed

lemma remove_spaces_length: "length (fst (spec_remove_spaces xs rs)) \<le> length xs"
proof (induction xs arbitrary: rs rule: remove_spaces_induct)
  case Nil
  show ?case by (simp add: spec_remove_spaces.simps [of "[]"])
next
  case (Run x xs)
  have "length (takeWhile is_space xs) + length (dropWhile is_space xs) = length xs"
    by (metis length_append takeWhile_dropWhile_id)
  moreover have "length (fst (spec_remove_spaces (dropWhile is_space xs) (\<lambda>n. rs (Suc n))))
      \<le> length (dropWhile is_space xs)"
    by (rule Run.IH)
  ultimately show ?case
    using Run.hyps by simp
next
  case (Copy x xs)
  then show ?case by simp
qed

lemma formatting_as_scans:
  "addOCRFormattingIssues tx rs =
     (let r1 = spec_add_line_breaks tx rs;
          r2 = spec_remove_spaces (fst r1) (snd r1)
      in spec_add_spaces (fst r2) (snd r2))"
  by (simp add: addOCRFormattingIssues_def add_line_breaks_spec remove_spaces_spec add_spaces_spec)

subsection \<open>The formatting pass\<close>

text \<open>
  C10. Removing every white space character (the class \<open>\s\<close>) from the output of
  \<open>addOCRFormattingIssues\<close> gives the input with its white space removed: the pass only
  rewrites, deletes or inserts white space, for every input and every stream of draws.
\<close>

theorem formatting_keeps_non_whitespace:
  "filter (\<lambda>c. \<not> is_space c) (fst (addOCRFormattingIssues text rs)) =
   filter (\<lambda>c. \<not> is_space c) text"
  by (simp add: formatting_as_scans Let_def add_spaces_keep_nonspace remove_spaces_keep_nonspace
      line_breaks_keep_nonspace)

text \<open>
  C5, as the code has it. Every character of the output of the formatting pass occurs in
  its input or is a space (U+0020) or a line break (U+000A): the first transform puts
  line breaks into the text, so a line break can appear that the input did not have.
\<close>

theorem formatting_output_characters:
  "set (fst (addOCRFormattingIssues text rs)) \<subseteq> set text \<union> {0x20, 0x0A}"
proof -
  have "set (fst (addOCRFormattingIssues text rs))
      \<subseteq> insert 0x20 (set (fst (spec_remove_spaces (fst (spec_add_line_breaks text rs))
            (snd (spec_add_line_breaks text rs)))))"
    by (simp add: formatting_as_scans Let_def add_spaces_chars)
  also have "\<dots> \<subseteq> insert 0x20 (set (fst (spec_add_line_breaks text rs)))"
    using remove_spaces_chars by (intro insert_mono)
  also have "\<dots> \<subseteq> insert 0x20 (insert 0x0A (set text))"
    using line_breaks_chars by (intro insert_mono)
  finally show ?thesis by auto
qed

text \<open>
  C5 as stated fails: on \<open>"a b"\<close>, with a first draw of 0 and all later draws 0.5, the output
  is \<open>"a\nb"\<close>; the line break is neither in the input nor a space.
\<close>

theorem formatting_new_character_counterexample:
  "fst (addOCRFormattingIssues (js ''a b'') (draws [0] 0.5)) = [0x61, 0x0A, 0x62] \<and>
   (0x0A :: jschar) \<notin> set (js ''a b'') \<and> (0x0A :: jschar) \<noteq> 0x20"
  by (simp add: formatting_as_scans spec_add_line_breaks.simps spec_remove_spaces.simps
      Let_def js_def is_word_def is_space_def)

text \<open>
  C6, as the code has it. The first transform is the left-to-right scan
  \<open>spec_add_line_breaks\<close>: a match is a maximal run of word characters, the white space
  after it and the maximal run of word characters after that; one draw is made per match
  and a draw below 0.1 puts a single line break in place of the white space. The search
  resumes after the second word, so that word does not start the next match; what lies
  outside the matches is copied unchanged.
\<close>

theorem line_breaks_scan_matches:
  "add_line_breaks text rs = spec_add_line_breaks text rs"
  by (rule add_line_breaks_spec)

text \<open>
  C6 as stated fails: with every draw 0, each pair that is considered gets its line
  break. On \<open>"a b c"\<close> the result is \<open>"a\nb c"\<close>: the pair \<open>b\<close>, \<open>c\<close> is never considered,
  although on its own \<open>"b c"\<close> becomes \<open>"b\nc"\<close>.
\<close>

theorem line_breaks_skip_pair_counterexample:
  "fst (add_line_breaks (js ''a b c'') (draws [] 0)) = js ''a'' @ [0x0A] @ js ''b c'' \<and>
   fst (add_line_breaks (js ''b c'') (draws [] 0)) = js ''b'' @ [0x0A] @ js ''c''"
  by (simp add: add_line_breaks_spec spec_add_line_breaks.simps Let_def js_def is_word_def
      is_space_def)

text \<open>
  C7, as the code has it. The third transform is the scan \<open>spec_add_spaces\<close>: for every
  word character (\<open>[A-Za-z0-9_]\<close>) one draw is made, and a draw below 0.08 puts a space
  right after it; every other character is copied without a draw and is never followed
  by an inserted space.
\<close>

theorem space_insertion_after_word_characters:
  "add_spaces text rs = spec_add_spaces text rs"
  by (rule add_spaces_spec)

text \<open>
  C7 as stated fails: with every draw 0 a comma stays a comma, in the third transform and
  in the whole pass, while the letter \<open>a\<close> gets its space.
\<close>

theorem space_insertion_non_word_counterexample:
  "fst (add_spaces (js '','') (draws [] 0)) = js '','' \<and>
   fst (addOCRFormattingIssues (js '','') (draws [] 0)) = js '','' \<and>
   fst (add_spaces (js ''a'') (draws [] 0)) = js ''a ''"
  by (simp add: formatting_as_scans add_spaces_spec spec_add_line_breaks.simps
      spec_remove_spaces.simps Let_def js_def is_word_def is_space_def)

subsection \<open>The field orchestrator\<close>

lemma corrupt_if_truthy_absent: "absent_or_empty v \<Longrightarrow> corrupt_if_truthy v rs = (v, rs)"
  by (cases v) simp_all

lemma map_medications_length: "length (fst (map_medications meds rs)) = length meds"
  by (induction meds arbitrary: rs) (simp_all add: Let_def)

lemma map_medications_nth:
  "i < length meds \<Longrightarrow>
     \<exists>r. fst (map_medications meds rs) ! i = fst (corrupt_medication (meds ! i) r)"
proof (induction meds arbitrary: rs i)
  case Nil
  then show ?case by simp
next
  case (Cons med meds)
  show ?case
  proof (cases i)
    case 0
    then show ?thesis by (auto simp: Let_def)
  next
    case (Suc j)
    with Cons.prems have "j < length meds" by simp
    from Cons.IH [OF this] show ?thesis
      by (simp add: Suc Let_def)
  qed
qed

lemma corrupt_if_truthy_exact:
  "corrupt_if_truthy v rs = (char_pass_on v rs, draws_after v rs)"
  by (cases v) (simp_all add: Let_def)

lemma corrupt_medication_exact:
  "corrupt_medication med rs =
    (let r1 = rs;
         r2 = draws_after (med_name med) r1;
         r3 = draws_after (med_dosage med) r2;
         r4 = draws_after (med_frequency med) r3;
         r5 = draws_after (med_duration med) r4
     in (\<lparr>med_name = char_pass_on (med_name med) r1,
          med_dosage = char_pass_on (med_dosage med) r2,
          med_frequency = char_pass_on (med_frequency med) r3,
          med_duration = char_pass_on (med_duration med) r4,
          med_instructions = char_pass_on (med_instructions med) r5\<rparr>,
         draws_after_medication med rs))"
  by (simp add: corrupt_medication_def corrupt_if_truthy_exact draws_after_medication_def Let_def)

lemma map_medications_draws:
  "snd (map_medications meds rs) = fold draws_after_medication meds rs"
  by (induction meds arbitrary: rs) (simp_all add: Let_def corrupt_medication_exact)

lemma map_medications_nth_exact:
  "i < length meds \<Longrightarrow>
     fst (map_medications meds rs) ! i =
       fst (corrupt_medication (meds ! i) (fold draws_after_medication (take i meds) rs))"
proof (induction meds arbitrary: rs i)
  case Nil
  then show ?case by simp
next
  case (Cons med meds)
  show ?case
  proof (cases i)
    case 0
    then show ?thesis by (simp add: Let_def)
  next
    case (Suc j)
    with Cons.prems have j: "j < length meds" by simp
    have "snd (corrupt_medication med rs) = draws_after_medication med rs"
      by (simp add: corrupt_medication_exact Let_def)
    with Cons.IH [OF j, of "snd (corrupt_medication med rs)"] show ?thesis
      by (simp add: Suc Let_def)
  qed
qed

lemma POST_response_guarded:
  assumes "pd_text pd = Str t" and "t \<noteq> []" and "pd_medications pd = Some meds"
  shows "POST_response raw (Some pd) rs =
    (let a = introduceRealisticOCRErrors t rs;
         b = addOCRFormattingIssues (fst a) (snd a);
         m = map_medications meds (snd b);
         d = corrupt_if_truthy (pd_doctorName pd) (snd m)
     in (pd\<lparr>pd_text := Str (fst b), pd_medications := Some (fst m), pd_doctorName := fst d\<rparr>,
         snd d))"
  using assms by (simp add: POST_response_def Let_def)

lemma spec_emission_draws:
  "spec_emission c (draws ds d) =
    (if draws ds d 0 < 0.15 then
       (case ocrErrors [c] of
          Some mapped \<Rightarrow> (mapped, draws (tl ds) d)
        | None \<Rightarrow>
            (if draws (tl ds) d 0 < 0.3 then ([], draws (tl (tl ds)) d)
             else if draws (tl (tl ds)) d 0 < 0.2 then ([c, c], draws (tl (tl (tl ds))) d)
             else ([c], draws (tl (tl (tl ds))) d)))
     else ([c], draws (tl ds) d))"
  by (simp add: spec_emission_def eval_nat_numeral fun_eq_iff del: draws_simps split: option.splits)

lemmas eval_passes =
  char_pass_spec spec_emission_draws ocrErrors_lookup ocrErrors_literal_def js_def Let_def
  formatting_as_scans spec_add_line_breaks.simps spec_remove_spaces.simps is_word_def is_space_def

text \<open>When every draw is at or above 0.15 neither pass changes anything.\<close>

lemma char_pass_quiet:
  "0.15 \<le> d \<Longrightarrow> spec_char_pass xs (draws [] d) = (xs, draws [] d)"
  by (induction xs) (simp_all add: spec_emission_draws Let_def)

lemma add_line_breaks_quiet:
  assumes "0.1 \<le> d"
  shows "spec_add_line_breaks xs (draws [] d) = (xs, draws [] d)"
proof (induction xs rule: line_breaks_induct)
  case Nil
  show ?case by (simp add: spec_add_line_breaks.simps [of "[]"])
next
  case (Match xs word1 gap word2 rest)
  show ?case
    using assms by (subst Match.hyps(6)) (simp add: Match.IH Match.hyps(1))
next
  case (Copy x xs)
  show ?case
    by (simp add: Copy.hyps Copy.IH)
qed

lemma remove_spaces_quiet:
  assumes "0.15 \<le> d"
  shows "spec_remove_spaces xs (draws [] d) = (xs, draws [] d)"
proof (induction xs rule: remove_spaces_induct)
  case Nil
  show ?case by (simp add: spec_remove_spaces.simps [of "[]"])
next
  case (Run x xs)
  show ?case
    using assms by (simp add: Run.hyps(2) Run.IH)
next
  case (Copy x xs)
  show ?case
    by (simp add: Copy.hyps(2) Copy.IH)
qed

lemma add_spaces_quiet:
  "0.08 \<le> d \<Longrightarrow> spec_add_spaces xs (draws [] d) = (xs, draws [] d)"
  by (induction xs) (simp_all add: Let_def)

lemma passes_quiet:
  assumes "0.15 \<le> d"
  shows "introduceRealisticOCRErrors xs (draws [] d) = (xs, draws [] d)"
    and "addOCRFormattingIssues xs (draws [] d) = (xs, draws [] d)"
  using assms
  by (simp_all add: char_pass_spec char_pass_quiet formatting_as_scans Let_def
      add_line_breaks_quiet remove_spaces_quiet add_spaces_quiet)

lemma fallback_quiet:
  "0.15 \<le> d \<Longrightarrow> fallback raw (draws [] d) =
     (\<lparr>pd_text = Str raw, pd_medications = Some [], pd_doctorName = Str [],
       pd_prescriptionDate = Str []\<rparr>, draws [] d)"
  by (simp add: fallback_def Let_def passes_quiet)

text \<open>
  C2, as the code has it. When the text of the parsed response is a non-empty string and
  its medications are a list, the handler answers the record in which the text is the
  character-level pass followed by the formatting pass; the medications keep their
  number and order, and each of their sub-fields, and then the doctor name, is the
  character-level pass alone on that field, run on the draws left by everything before
  it (text, earlier medications, earlier sub-fields); an empty, \<open>null\<close> or absent field
  is left as it is and takes no draw. No formatting pass is applied to them.
\<close>

theorem orchestrator_applies_passes:
  assumes "pd_text pd = Str t" and "t \<noteq> []" and "pd_medications pd = Some meds"
  shows
    "let a = introduceRealisticOCRErrors t rs;
         b = addOCRFormattingIssues (fst a) (snd a)
     in \<exists>meds'.
          fst (POST_response raw (Some pd) rs) =
            pd\<lparr>pd_text := Str (fst b), pd_medications := Some meds',
               pd_doctorName :=
                 char_pass_on (pd_doctorName pd) (fold draws_after_medication meds (snd b))\<rparr> \<and>
          length meds' = length meds \<and>
          (\<forall>i<length meds.
             let med = meds ! i;
                 r1 = fold draws_after_medication (take i meds) (snd b);
                 r2 = draws_after (med_name med) r1;
                 r3 = draws_after (med_dosage med) r2;
                 r4 = draws_after (med_frequency med) r3;
                 r5 = draws_after (med_duration med) r4
             in meds' ! i =
                  \<lparr>med_name = char_pass_on (med_name med) r1,
                   med_dosage = char_pass_on (med_dosage med) r2,
                   med_frequency = char_pass_on (med_frequency med) r3,
                   med_duration = char_pass_on (med_duration med) r4,
                   med_instructions = char_pass_on (med_instructions med) r5\<rparr>)"
proof -
  define a where "a = introduceRealisticOCRErrors t rs"
  define b where "b = addOCRFormattingIssues (fst a) (snd a)"
  define m where "m = map_medications meds (snd b)"
  have run: "fst (POST_response raw (Some pd) rs) =
      pd\<lparr>pd_text := Str (fst b), pd_medications := Some (fst m),
         pd_doctorName := char_pass_on (pd_doctorName pd) (fold draws_after_medication meds (snd b))\<rparr>"
    by (simp add: POST_response_guarded [OF assms] Let_def a_def b_def m_def
        corrupt_if_truthy_exact map_medications_draws)
  have len: "length (fst m) = length meds"
    by (simp add: m_def map_medications_length)
  have nth: "fst m ! i =
      (let med = meds ! i;
           r1 = fold draws_after_medication (take i meds) (snd b);
           r2 = draws_after (med_name med) r1;
           r3 = draws_after (med_dosage med) r2;
           r4 = draws_after (med_frequency med) r3;
           r5 = draws_after (med_duration med) r4
       in \<lparr>med_name = char_pass_on (med_name med) r1,
            med_dosage = char_pass_on (med_dosage med) r2,
            med_frequency = char_pass_on (med_frequency med) r3,
            med_duration = char_pass_on (med_duration med) r4,
            med_instructions = char_pass_on (med_instructions med) r5\<rparr>)"
    if "i < length meds" for i
    using map_medications_nth_exact [OF that, of "snd b"]
    by (simp add: m_def corrupt_medication_exact Let_def)
  have "\<exists>meds'.
          fst (POST_response raw (Some pd) rs) =
            pd\<lparr>pd_text := Str (fst b), pd_medications := Some meds',
               pd_doctorName :=
                 char_pass_on (pd_doctorName pd) (fold draws_after_medication meds (snd b))\<rparr> \<and>
          length meds' = length meds \<and>
          (\<forall>i<length meds.
             let med = meds ! i;
                 r1 = fold draws_after_medication (take i meds) (snd b);
                 r2 = draws_after (med_name med) r1;
                 r3 = draws_after (med_dosage med) r2;
                 r4 = draws_after (med_frequency med) r3;
                 r5 = draws_after (med_duration med) r4
             in meds' ! i =
                  \<lparr>med_name = char_pass_on (med_name med) r1,
                   med_dosage = char_pass_on (med_dosage med) r2,
                   med_frequency = char_pass_on (med_frequency med) r3,
                   med_duration = char_pass_on (med_duration med) r4,
                   med_instructions = char_pass_on (med_instructions med) r5\<rparr>)"
  proof (intro exI [of _ "fst m"] conjI allI impI)
    show "fst (POST_response raw (Some pd) rs) =
            pd\<lparr>pd_text := Str (fst b), pd_medications := Some (fst m),
               pd_doctorName :=
                 char_pass_on (pd_doctorName pd) (fold draws_after_medication meds (snd b))\<rparr>"
      by (rule run)
    show "length (fst m) = length meds"
      by (rule len)
    fix i assume "i < length meds"
    then show "let med = meds ! i;
                 r1 = fold draws_after_medication (take i meds) (snd b);
                 r2 = draws_after (med_name med) r1;
                 r3 = draws_after (med_dosage med) r2;
                 r4 = draws_after (med_frequency med) r3;
                 r5 = draws_after (med_duration med) r4
             in fst m ! i =
                  \<lparr>med_name = char_pass_on (med_name med) r1,
                   med_dosage = char_pass_on (med_dosage med) r2,
                   med_frequency = char_pass_on (med_frequency med) r3,
                   med_duration = char_pass_on (med_duration med) r4,
                   med_instructions = char_pass_on (med_instructions med) r5\<rparr>"
      using nth [of i] by (simp only: Let_def)
  qed
  then show ?thesis
    unfolding a_def b_def by (simp only: Let_def)
qed

theorem orchestrator_applies_passes_witness:
  "pd_text example_record = Str (js ''Rx'') \<and> js ''Rx'' \<noteq> [] \<and>
   pd_medications example_record \<noteq> None \<and>
   fst (POST_response example_response (Some example_record) (draws [] 0)) = example_corrupted"
proof -
  let ?med = "\<lparr>med_name = Str (js ''Aspirin''), med_dosage = Str [],
        med_frequency = Null, med_duration = Undefined, med_instructions = Undefined\<rparr>"
  have h1: "pd_text example_record = Str (js ''Rx'')"
    and h2: "js ''Rx'' \<noteq> []"
    and h3: "pd_medications example_record = Some [?med]"
    by (simp_all add: example_record_def js_def)
  have asp: "js ''Aspirin'' \<noteq> []"
    by (simp add: js_def)
  have a: "introduceRealisticOCRErrors (js ''Rx'') (draws [] 0) = (js ''X'', draws [] 0)"
    by (simp add: eval_passes)
  have b: "addOCRFormattingIssues (js ''X'') (draws [] 0) = (js ''X '', draws [] 0)"
    by (simp add: eval_passes)
  have n: "introduceRealisticOCRErrors (js ''Aspirin'') (draws [] 0) = (js ''Pjnjr'', draws [] 0)"
    by (simp add: eval_passes)
  let ?b = "addOCRFormattingIssues (fst (introduceRealisticOCRErrors (js ''Rx'') (draws [] 0)))
      (snd (introduceRealisticOCRErrors (js ''Rx'') (draws [] 0)))"
  from orchestrator_applies_passes [OF h1 h2 h3, where raw = example_response and rs = "draws [] 0",
      unfolded Let_def]
  obtain meds' where out0: "fst (POST_response example_response (Some example_record) (draws [] 0)) =
      example_record\<lparr>pd_text := Str (fst ?b), pd_medications := Some meds',
        pd_doctorName := char_pass_on (pd_doctorName example_record)
          (fold draws_after_medication [?med] (snd ?b))\<rparr>"
    and len0: "length meds' = length [?med]"
    and first0: "\<forall>i<length [?med]. meds' ! i =
        \<lparr>med_name = char_pass_on (med_name ([?med] ! i))
           (fold draws_after_medication (take i [?med]) (snd ?b)),
         med_dosage = char_pass_on (med_dosage ([?med] ! i))
           (draws_after (med_name ([?med] ! i))
             (fold draws_after_medication (take i [?med]) (snd ?b))),
         med_frequency = char_pass_on (med_frequency ([?med] ! i))
           (draws_after (med_dosage ([?med] ! i)) (draws_after (med_name ([?med] ! i))
             (fold draws_after_medication (take i [?med]) (snd ?b)))),
         med_duration = char_pass_on (med_duration ([?med] ! i))
           (draws_after (med_frequency ([?med] ! i))
             (draws_after (med_dosage ([?med] ! i)) (draws_after (med_name ([?med] ! i))
               (fold draws_after_medication (take i [?med]) (snd ?b))))),
         med_instructions = char_pass_on (med_instructions ([?med] ! i))
           (draws_after (med_duration ([?med] ! i)) (draws_after (med_frequency ([?med] ! i))
             (draws_after (med_dosage ([?med] ! i)) (draws_after (med_name ([?med] ! i))
               (fold draws_after_medication (take i [?med]) (snd ?b))))))\<rparr>"
    by blast
  have out: "fst (POST_response example_response (Some example_record) (draws [] 0)) =
      example_record\<lparr>pd_text := Str (js ''X ''), pd_medications := Some meds',
        pd_doctorName := Null\<rparr>"
    using out0 by (simp add: a b example_record_def)
  have len: "length meds' = 1"
    using len0 by simp
  have first: "meds' ! 0 = \<lparr>med_name = Str (js ''Pjnjr''), med_dosage = Str [],
        med_frequency = Null, med_duration = Undefined, med_instructions = Undefined\<rparr>"
    using first0 asp by (simp add: a b n)
  from len first have "meds' = [\<lparr>med_name = Str (js ''Pjnjr''), med_dosage = Str [],
        med_frequency = Null, med_duration = Undefined, med_instructions = Undefined\<rparr>]"
    by (cases meds') simp_all
  with out have "fst (POST_response example_response (Some example_record) (draws [] 0)) =
      example_corrupted"
    by (simp add: example_record_def example_corrupted_def)
  with h1 h2 h3 show ?thesis
    by simp
qed

text \<open>
  C2 as stated fails for a structured response whose text is the empty string: the
  guard is false, the handler answers its fallback, and the text of the answer is the
  whole upstream response (here unchanged, every draw being 0.9), not the two passes
  applied to the empty text field, which give the empty string.
\<close>

theorem orchestrator_empty_text_counterexample:
  "pd_text empty_text_record = Str [] \<and>
   pd_medications empty_text_record = Some [] \<and>
   fst (addOCRFormattingIssues (fst (introduceRealisticOCRErrors [] (draws [] 0.9)))
         (snd (introduceRealisticOCRErrors [] (draws [] 0.9)))) = [] \<and>
   pd_text (fst (POST_response empty_text_response (Some empty_text_record) (draws [] 0.9)))
     = Str empty_text_response \<and>
   empty_text_response \<noteq> []"
  by (simp add: POST_response_def fallback_quiet passes_quiet empty_text_record_def)
     (simp add: empty_text_response_def js_def)

text \<open>
  C4, as the code has it. When the text of the parsed response is a non-empty string and
  its medications are a list, the answer has the prescription date it was given, and
  every medication sub-field and doctor name that is absent, \<open>null\<close> or the empty string
  is returned as it was.
\<close>

theorem orchestrator_frame:
  assumes "pd_text pd = Str t" and "t \<noteq> []" and "pd_medications pd = Some meds"
  shows "pd_prescriptionDate (fst (POST_response raw (Some pd) rs)) = pd_prescriptionDate pd \<and>
     (absent_or_empty (pd_doctorName pd) \<longrightarrow>
        pd_doctorName (fst (POST_response raw (Some pd) rs)) = pd_doctorName pd) \<and>
     (\<exists>meds'. pd_medications (fst (POST_response raw (Some pd) rs)) = Some meds' \<and>
        length meds' = length meds \<and>
        (\<forall>i<length meds.
           (absent_or_empty (med_name (meds ! i)) \<longrightarrow> med_name (meds' ! i) = med_name (meds ! i)) \<and>
           (absent_or_empty (med_dosage (meds ! i)) \<longrightarrow> med_dosage (meds' ! i) = med_dosage (meds ! i)) \<and>
           (absent_or_empty (med_frequency (meds ! i)) \<longrightarrow>
              med_frequency (meds' ! i) = med_frequency (meds ! i)) \<and>
           (absent_or_empty (med_duration (meds ! i)) \<longrightarrow>
              med_duration (meds' ! i) = med_duration (meds ! i)) \<and>
           (absent_or_empty (med_instructions (meds ! i)) \<longrightarrow>
              med_instructions (meds' ! i) = med_instructions (meds ! i))))"
proof -
  define r0 where "r0 = snd (addOCRFormattingIssues (fst (introduceRealisticOCRErrors t rs))
      (snd (introduceRealisticOCRErrors t rs)))"
  let ?out = "fst (POST_response raw (Some pd) rs)"
  let ?meds' = "fst (map_medications meds r0)"
  have date: "pd_prescriptionDate ?out = pd_prescriptionDate pd"
    by (simp add: POST_response_guarded [OF assms] Let_def)
  have doctor: "absent_or_empty (pd_doctorName pd) \<longrightarrow> pd_doctorName ?out = pd_doctorName pd"
    by (simp add: POST_response_guarded [OF assms] Let_def corrupt_if_truthy_absent)
  have meds': "pd_medications ?out = Some ?meds'"
    by (simp add: POST_response_guarded [OF assms] Let_def r0_def)
  have len: "length ?meds' = length meds"
    by (rule map_medications_length)
  have fields: "(absent_or_empty (med_name (meds ! i)) \<longrightarrow> med_name (?meds' ! i) = med_name (meds ! i)) \<and>
           (absent_or_empty (med_dosage (meds ! i)) \<longrightarrow> med_dosage (?meds' ! i) = med_dosage (meds ! i)) \<and>
           (absent_or_empty (med_frequency (meds ! i)) \<longrightarrow>
              med_frequency (?meds' ! i) = med_frequency (meds ! i)) \<and>
           (absent_or_empty (med_duration (meds ! i)) \<longrightarrow>
              med_duration (?meds' ! i) = med_duration (meds ! i)) \<and>
           (absent_or_empty (med_instructions (meds ! i)) \<longrightarrow>
              med_instructions (?meds' ! i) = med_instructions (meds ! i))"
    if "i < length meds" for i
  proof -
    from map_medications_nth [OF that, of r0]
    obtain r where "?meds' ! i = fst (corrupt_medication (meds ! i) r)"
      by blast
    then show ?thesis
      by (simp add: corrupt_medication_def Let_def corrupt_if_truthy_absent)
  qed
  from date doctor meds' len fields show ?thesis
    by blast
qed

theorem orchestrator_frame_witness:
  "pd_text example_record = Str (js ''Rx'') \<and> js ''Rx'' \<noteq> [] \<and>
   pd_medications example_record \<noteq> None \<and>
   pd_prescriptionDate (fst (POST_response example_response (Some example_record) (draws [] 0)))
     = Str (js ''2024-01-01'') \<and>
   pd_doctorName (fst (POST_response example_response (Some example_record) (draws [] 0))) = Null \<and>
   (\<exists>meds'. pd_medications (fst (POST_response example_response (Some example_record) (draws [] 0)))
       = Some meds' \<and> length meds' = 1 \<and>
      med_dosage (meds' ! 0) = Str [] \<and> med_frequency (meds' ! 0) = Null \<and>
      med_duration (meds' ! 0) = Undefined \<and> med_instructions (meds' ! 0) = Undefined)"
proof -
  let ?med = "\<lparr>med_name = Str (js ''Aspirin''), med_dosage = Str [],
        med_frequency = Null, med_duration = Undefined, med_instructions = Undefined\<rparr>"
  have h1: "pd_text example_record = Str (js ''Rx'')"
    and h2: "js ''Rx'' \<noteq> []"
    and h3: "pd_medications example_record = Some [?med]"
    by (simp_all add: example_record_def js_def)
  let ?out = "fst (POST_response example_response (Some example_record) (draws [] 0))"
  from orchestrator_frame [OF h1 h2 h3, where raw = example_response and rs = "draws [] 0"]
  obtain meds' where date: "pd_prescriptionDate ?out = pd_prescriptionDate example_record"
    and doctor: "absent_or_empty (pd_doctorName example_record) \<longrightarrow>
        pd_doctorName ?out = pd_doctorName example_record"
    and meds': "pd_medications ?out = Some meds'" "length meds' = length [?med]"
    and fields: "\<forall>i<length [?med].
           (absent_or_empty (med_dosage ([?med] ! i)) \<longrightarrow> med_dosage (meds' ! i) = med_dosage ([?med] ! i)) \<and>
           (absent_or_empty (med_frequency ([?med] ! i)) \<longrightarrow>
              med_frequency (meds' ! i) = med_frequency ([?med] ! i)) \<and>
           (absent_or_empty (med_duration ([?med] ! i)) \<longrightarrow>
              med_duration (meds' ! i) = med_duration ([?med] ! i)) \<and>
           (absent_or_empty (med_instructions ([?med] ! i)) \<longrightarrow>
              med_instructions (meds' ! i) = med_instructions ([?med] ! i))"
    by blast
  have "pd_prescriptionDate ?out = Str (js ''2024-01-01'')"
    using date by (simp add: example_record_def)
  moreover have "pd_doctorName ?out = Null"
    using doctor by (simp add: example_record_def)
  moreover have "length meds' = 1"
    using meds'(2) by simp
  moreover have "med_dosage (meds' ! 0) = Str [] \<and> med_frequency (meds' ! 0) = Null \<and>
      med_duration (meds' ! 0) = Undefined \<and> med_instructions (meds' ! 0) = Undefined"
    using fields by simp
  ultimately show ?thesis
    using h1 h2 h3 meds'(1) by auto
qed

text \<open>
  C4 as stated fails when the text field is the empty string: the handler answers its
  fallback, in which the prescription date \<open>"2024"\<close> has become the empty string and the
  empty text has become the whole upstream response.
\<close>

theorem orchestrator_date_counterexample:
  "pd_text empty_text_record = Str [] \<and>
   pd_prescriptionDate empty_text_record = Str (js ''2024'') \<and>
   pd_prescriptionDate (fst (POST_response empty_text_response (Some empty_text_record)
       (draws [] 0.9))) = Str [] \<and>
   pd_text (fst (POST_response empty_text_response (Some empty_text_record) (draws [] 0.9)))
     \<noteq> Str []"
  by (simp add: POST_response_def fallback_quiet empty_text_record_def)
     (simp add: empty_text_response_def js_def)

subsection \<open>How many draws the passes read\<close>

lemma reads_at_mostI:
  assumes "\<And>rs. \<exists>k\<le>n. snd (f rs) = (\<lambda>i. rs (i + k)) \<and>
       (\<forall>rs'. (\<forall>i<k. rs' i = rs i) \<longrightarrow> f rs' = (fst (f rs), \<lambda>i. rs' (i + k)))"
  shows "reads_at_most n f"
  using assms unfolding reads_at_most_def by blast

lemma reads_at_mostD:
  assumes "reads_at_most n f"
  shows "\<exists>k\<le>n. snd (f rs) = (\<lambda>i. rs (i + k)) \<and>
       (\<forall>rs'. (\<forall>i<k. rs' i = rs i) \<longrightarrow> f rs' = (fst (f rs), \<lambda>i. rs' (i + k)))"
  using assms unfolding reads_at_most_def by blast

lemma reads_pure: "reads_at_most 0 (\<lambda>rs. (a, rs))"
  by (rule reads_at_mostI) simp

lemma reads_mono: "reads_at_most n f \<Longrightarrow> n \<le> m \<Longrightarrow> reads_at_most m f"
  unfolding reads_at_most_def by (meson order_trans)

lemma reads_map:
  assumes "reads_at_most n f"
  shows "reads_at_most n (\<lambda>rs. (h (fst (f rs)), snd (f rs)))"
proof (rule reads_at_mostI)
  fix rs
  from reads_at_mostD [OF assms, of rs]
  obtain k where k: "k \<le> n" "snd (f rs) = (\<lambda>i. rs (i + k))"
    "\<forall>rs'. (\<forall>i<k. rs' i = rs i) \<longrightarrow> f rs' = (fst (f rs), \<lambda>i. rs' (i + k))"
    by blast
  show "\<exists>k\<le>n. snd (h (fst (f rs)), snd (f rs)) = (\<lambda>i. rs (i + k)) \<and>
       (\<forall>rs'. (\<forall>i<k. rs' i = rs i) \<longrightarrow>
          (h (fst (f rs')), snd (f rs')) = (fst (h (fst (f rs)), snd (f rs)), \<lambda>i. rs' (i + k)))"
  proof (intro exI [of _ k] conjI allI impI)
    show "k \<le> n" by (rule k(1))
    show "snd (h (fst (f rs)), snd (f rs)) = (\<lambda>i. rs (i + k))" by (simp add: k(2))
    fix rs' assume "\<forall>i<k. rs' i = rs i"
    then have "f rs' = (fst (f rs), \<lambda>i. rs' (i + k))" by (intro k(3) [rule_format]) simp
    then show "(h (fst (f rs')), snd (f rs')) = (fst (h (fst (f rs)), snd (f rs)), \<lambda>i. rs' (i + k))"
      by simp
  qed
qed

lemma reads_bind:
  assumes f: "reads_at_most n f"
    and g: "\<And>rs. reads_at_most m (g (fst (f rs)))"
  shows "reads_at_most (n + m) (\<lambda>rs. g (fst (f rs)) (snd (f rs)))"
proof (rule reads_at_mostI)
  fix rs
  from reads_at_mostD [OF f, of rs]
  obtain k where k: "k \<le> n" "snd (f rs) = (\<lambda>i. rs (i + k))"
    "\<forall>rs'. (\<forall>i<k. rs' i = rs i) \<longrightarrow> f rs' = (fst (f rs), \<lambda>i. rs' (i + k))"
    by blast
  let ?a = "fst (f rs)" and ?r1 = "\<lambda>i. rs (i + k)"
  from reads_at_mostD [OF g [of rs], of ?r1]
  obtain j where j: "j \<le> m" "snd (g ?a ?r1) = (\<lambda>i. ?r1 (i + j))"
    "\<forall>rs'. (\<forall>i<j. rs' i = ?r1 i) \<longrightarrow> g ?a rs' = (fst (g ?a ?r1), \<lambda>i. rs' (i + j))"
    by blast
  show "\<exists>l\<le>n + m. snd (g (fst (f rs)) (snd (f rs))) = (\<lambda>i. rs (i + l)) \<and>
       (\<forall>rs'. (\<forall>i<l. rs' i = rs i) \<longrightarrow>
          g (fst (f rs')) (snd (f rs')) = (fst (g (fst (f rs)) (snd (f rs))), \<lambda>i. rs' (i + l)))"
  proof (intro exI [of _ "k + j"] conjI allI impI)
    show "k + j \<le> n + m" using k(1) j(1) by simp
    show "snd (g (fst (f rs)) (snd (f rs))) = (\<lambda>i. rs (i + (k + j)))"
      by (simp add: k(2) j(2) add.assoc add.commute [of k j])
    fix rs' assume agree: "\<forall>i<k + j. rs' i = rs i"
    then have fr: "f rs' = (?a, \<lambda>i. rs' (i + k))"
      by (intro k(3) [rule_format]) simp
    have "g ?a (\<lambda>i. rs' (i + k)) = (fst (g ?a ?r1), \<lambda>i. rs' (i + j + k))"
      using agree by (intro j(3) [rule_format]) simp
    then show "g (fst (f rs')) (snd (f rs')) =
        (fst (g (fst (f rs)) (snd (f rs))), \<lambda>i. rs' (i + (k + j)))"
      by (simp add: fr k(2) add.assoc add.commute [of k j])
  qed
qed

lemma reads_draw:
  assumes "\<And>d. reads_at_most n (G d)"
  shows "reads_at_most (Suc n) (\<lambda>rs. G (rs 0) (\<lambda>i. rs (Suc i)))"
proof -
  have m: "reads_at_most 1 (\<lambda>rs. (rs 0, \<lambda>i. rs (Suc i)))"
    by (rule reads_at_mostI) (auto intro!: exI [of _ 1])
  have "reads_at_most (1 + n) (\<lambda>rs. G (fst (rs 0, \<lambda>i. rs (Suc i))) (snd (rs 0, \<lambda>i. rs (Suc i))))"
    by (rule reads_bind [OF m]) (simp add: assms)
  then show ?thesis by simp
qed

lemma reads_agree:
  assumes "reads_at_most n f" and "\<forall>i<n. rs' i = rs i"
  shows "fst (f rs') = fst (f rs)"
proof -
  from reads_at_mostD [OF assms(1), of rs]
  obtain k where k: "k \<le> n"
    "\<forall>rs'. (\<forall>i<k. rs' i = rs i) \<longrightarrow> f rs' = (fst (f rs), \<lambda>i. rs' (i + k))"
    by blast
  have "f rs' = (fst (f rs), \<lambda>i. rs' (i + k))"
    using k(1) assms(2) by (intro k(2) [rule_format]) simp
  then show ?thesis by simp
qed

lemma reads_pure_le: "reads_at_most n (\<lambda>rs. (a, rs))"
  by (rule reads_mono [OF reads_pure]) simp

lemma reads_emission: "reads_at_most 3 (spec_emission c)"
proof -
  let ?G3 = "\<lambda>(d3::real) (r3::rng). (if d3 < 0.2 then [c, c] else [c], r3)"
  let ?G2 = "\<lambda>(d2::real) (r2::rng). if d2 < 0.3 then ([], r2) else ?G3 (r2 0) (\<lambda>i. r2 (Suc i))"
  let ?G1 = "\<lambda>(d1::real) (r1::rng). if d1 < 0.15 then
       (case ocrErrors [c] of Some mapped \<Rightarrow> (mapped, r1) | None \<Rightarrow> ?G2 (r1 0) (\<lambda>i. r1 (Suc i)))
     else ([c], r1)"
  have eq: "spec_emission c = (\<lambda>rs. ?G1 (rs 0) (\<lambda>i. rs (Suc i)))"
    by (rule ext) (simp add: spec_emission_def eval_nat_numeral split: option.splits)
  have g3: "reads_at_most 0 (?G3 d3)" for d3
    by (rule reads_pure)
  have g2': "reads_at_most 1 (\<lambda>r2. ?G3 (r2 0) (\<lambda>i. r2 (Suc i)))"
    using reads_draw [of 0 ?G3, OF g3] by simp
  have g2: "reads_at_most 1 (?G2 d2)" for d2
    using g2' by (cases "d2 < 0.3") (simp_all add: reads_pure_le)
  have g1': "reads_at_most 2 (\<lambda>r1. ?G2 (r1 0) (\<lambda>i. r1 (Suc i)))"
    using reads_draw [of 1 ?G2, OF g2] by (simp add: numeral_2_eq_2)
  have g1: "reads_at_most 2 (?G1 d1)" for d1
    using g1' by (cases "d1 < 0.15"; cases "ocrErrors [c]") (simp_all add: reads_pure_le)
  have "reads_at_most 3 (\<lambda>rs. ?G1 (rs 0) (\<lambda>i. rs (Suc i)))"
    using reads_draw [of 2 ?G1, OF g1] by (simp add: numeral_3_eq_3 numeral_2_eq_2)
  then show ?thesis
    by (simp only: eq)
qed

lemma reads_char_pass: "reads_at_most (3 * length cs) (spec_char_pass cs)"
proof (induction cs)
  case Nil
  have "spec_char_pass [] = (\<lambda>rs. ([], rs))"
    by (rule ext) simp
  then show ?case
    by (simp add: reads_pure)
next
  case (Cons c cs)
  let ?g = "\<lambda>e rs. (e @ fst (spec_char_pass cs rs), snd (spec_char_pass cs rs))"
  have eq: "spec_char_pass (c # cs) = (\<lambda>rs. ?g (fst (spec_emission c rs)) (snd (spec_emission c rs)))"
    by (rule ext) (simp add: Let_def)
  have g: "reads_at_most (3 * length cs) (?g e)" for e
    by (rule reads_map [OF Cons.IH])
  have "reads_at_most (3 + 3 * length cs)
      (\<lambda>rs. ?g (fst (spec_emission c rs)) (snd (spec_emission c rs)))"
    by (rule reads_bind [OF reads_emission]) (rule g)
  then show ?case
    by (simp only: eq) simp
qed

lemma reads_add_spaces: "reads_at_most (length xs) (spec_add_spaces xs)"
proof (induction xs)
  case Nil
  have "spec_add_spaces [] = (\<lambda>rs. ([], rs))"
    by (rule ext) simp
  then show ?case
    by (simp add: reads_pure)
next
  case (Cons c cs)
  show ?case
  proof (cases "is_word c")
    case True
    let ?G = "\<lambda>(d::real) rs. ((if d < 0.08 then [c, 0x20] else [c]) @ fst (spec_add_spaces cs rs),
        snd (spec_add_spaces cs rs))"
    have eq: "spec_add_spaces (c # cs) = (\<lambda>rs. ?G (rs 0) (\<lambda>i. rs (Suc i)))"
      using True by (intro ext) (simp add: Let_def)
    have "reads_at_most (length cs) (?G d)" for d
      by (rule reads_map [OF Cons.IH])
    then have "reads_at_most (Suc (length cs)) (\<lambda>rs. ?G (rs 0) (\<lambda>i. rs (Suc i)))"
      by (rule reads_draw)
    then show ?thesis
      by (simp only: eq) simp
  next
    case False
    have eq: "spec_add_spaces (c # cs) =
        (\<lambda>rs. (c # fst (spec_add_spaces cs rs), snd (spec_add_spaces cs rs)))"
      using False by (intro ext) (simp add: Let_def)
    have "reads_at_most (length cs)
        (\<lambda>rs. (c # fst (spec_add_spaces cs rs), snd (spec_add_spaces cs rs)))"
      by (rule reads_map [OF Cons.IH])
    then show ?thesis
      by (simp only: eq) (erule reads_mono, simp)
  qed
qed

lemma reads_remove_spaces: "reads_at_most (length xs) (spec_remove_spaces xs)"
proof (induction xs rule: remove_spaces_induct)
  case Nil
  have "spec_remove_spaces [] = (\<lambda>rs. ([], rs))"
    by (rule ext) (simp add: spec_remove_spaces.simps [of "[]"])
  then show ?case
    by (simp add: reads_pure)
next
  case (Run x xs)
  let ?rest = "dropWhile is_space xs"
  let ?G = "\<lambda>(d::real) rs. ((if d < 0.15 then [] else x # takeWhile is_space xs) @
        fst (spec_remove_spaces ?rest rs), snd (spec_remove_spaces ?rest rs))"
  have eq: "spec_remove_spaces (x # xs) = (\<lambda>rs. ?G (rs 0) (\<lambda>i. rs (Suc i)))"
    by (rule ext) (rule Run.hyps(2))
  have "reads_at_most (length ?rest) (?G d)" for d
    by (rule reads_map [OF Run.IH])
  then have "reads_at_most (Suc (length ?rest)) (\<lambda>rs. ?G (rs 0) (\<lambda>i. rs (Suc i)))"
    by (rule reads_draw)
  then have "reads_at_most (length (x # xs)) (\<lambda>rs. ?G (rs 0) (\<lambda>i. rs (Suc i)))"
    by (rule reads_mono) (simp add: length_dropWhile_le)
  then show ?case
    by (simp only: eq)
next
  case (Copy x xs)
  have eq: "spec_remove_spaces (x # xs) =
      (\<lambda>rs. (x # fst (spec_remove_spaces xs rs), snd (spec_remove_spaces xs rs)))"
    by (rule ext) (rule Copy.hyps(2))
  have "reads_at_most (length xs)
      (\<lambda>rs. (x # fst (spec_remove_spaces xs rs), snd (spec_remove_spaces xs rs)))"
    by (rule reads_map [OF Copy.IH])
  then show ?case
    by (simp only: eq) (erule reads_mono, simp)
qed

lemma reads_add_line_breaks: "reads_at_most (length xs) (spec_add_line_breaks xs)"
proof (induction xs rule: line_breaks_induct)
  case Nil
  have "spec_add_line_breaks [] = (\<lambda>rs. ([], rs))"
    by (rule ext) (simp add: spec_add_line_breaks.simps [of "[]"])
  then show ?case
    by (simp add: reads_pure)
next
  case (Match xs word1 gap word2 rest)
  let ?G = "\<lambda>(d::real) rs. ((if d < 0.1 then word1 @ [0x0A] @ word2 else word1 @ gap @ word2) @
        fst (spec_add_line_breaks rest rs), snd (spec_add_line_breaks rest rs))"
  have eq: "spec_add_line_breaks xs = (\<lambda>rs. ?G (rs 0) (\<lambda>i. rs (Suc i)))"
    by (rule ext) (rule Match.hyps(6))
  have len: "Suc (length rest) \<le> length xs"
    using Match.hyps(1,2) by (cases word1) simp_all
  have "reads_at_most (length rest) (?G d)" for d
    by (rule reads_map [OF Match.IH])
  then have "reads_at_most (Suc (length rest)) (\<lambda>rs. ?G (rs 0) (\<lambda>i. rs (Suc i)))"
    by (rule reads_draw)
  then have "reads_at_most (length xs) (\<lambda>rs. ?G (rs 0) (\<lambda>i. rs (Suc i)))"
    using len by (rule reads_mono)
  then show ?case
    by (simp only: eq)
next
  case (Copy x xs)
  have eq: "spec_add_line_breaks (x # xs) =
      (\<lambda>rs. (x # fst (spec_add_line_breaks xs rs), snd (spec_add_line_breaks xs rs)))"
    by (rule ext) (rule Copy.hyps)
  have "reads_at_most (length xs)
      (\<lambda>rs. (x # fst (spec_add_line_breaks xs rs), snd (spec_add_line_breaks xs rs)))"
    by (rule reads_map [OF Copy.IH])
  then show ?case
    by (simp only: eq) (erule reads_mono, simp)
qed

lemma reads_formatting: "reads_at_most (3 * length tx) (addOCRFormattingIssues tx)"
proof -
  let ?g2 = "\<lambda>b rs. spec_add_spaces b rs"
  let ?g1 = "\<lambda>a rs. ?g2 (fst (spec_remove_spaces a rs)) (snd (spec_remove_spaces a rs))"
  have eq: "addOCRFormattingIssues tx =
      (\<lambda>rs. ?g1 (fst (spec_add_line_breaks tx rs)) (snd (spec_add_line_breaks tx rs)))"
    by (rule ext) (simp add: formatting_as_scans Let_def)
  have g2: "reads_at_most (length a) (?g2 (fst (spec_remove_spaces a rs)))" for a rs
    by (rule reads_mono [OF reads_add_spaces remove_spaces_length])
  have g1: "reads_at_most (length a + length a) (?g1 a)" for a
    by (rule reads_bind [OF reads_remove_spaces]) (rule g2)
  have g1': "reads_at_most (2 * length tx) (?g1 (fst (spec_add_line_breaks tx rs)))" for rs
    by (rule reads_mono [OF g1]) (use line_breaks_length [of tx rs] in simp)
  have "reads_at_most (length tx + 2 * length tx)
      (\<lambda>rs. ?g1 (fst (spec_add_line_breaks tx rs)) (snd (spec_add_line_breaks tx rs)))"
    by (rule reads_bind [OF reads_add_line_breaks]) (rule g1')
  then show ?thesis
    by (simp only: eq) simp
qed

text \<open>
  C9. Two runs on the same input give the same output whenever their streams of draws
  agree on the first \<open>3N\<close> draws, \<open>N\<close> the length of the input: each pass reads at most
  \<open>3N\<close> draws, and its output depends on nothing else. In particular identical streams
  give identical outputs, for the character-level pass and for the formatting pass.
\<close>

theorem same_draws_same_output:
  "(\<forall>i < 3 * length text. rs' i = rs i) \<longrightarrow>
     fst (introduceRealisticOCRErrors text rs') = fst (introduceRealisticOCRErrors text rs) \<and>
     fst (addOCRFormattingIssues text rs') = fst (addOCRFormattingIssues text rs)"
proof
  assume agree: "\<forall>i < 3 * length text. rs' i = rs i"
  have "fst (spec_char_pass text rs') = fst (spec_char_pass text rs)"
    using reads_char_pass agree by (rule reads_agree)
  moreover have "fst (addOCRFormattingIssues text rs') = fst (addOCRFormattingIssues text rs)"
    using reads_formatting agree by (rule reads_agree)
  ultimately show "fst (introduceRealisticOCRErrors text rs') = fst (introduceRealisticOCRErrors text rs) \<and>
     fst (addOCRFormattingIssues text rs') = fst (addOCRFormattingIssues text rs)"
    by (simp add: char_pass_spec)
qed

theorem same_draws_same_output_witness:
  "fst (introduceRealisticOCRErrors (js ''a b'') (draws [0, 0, 0, 0, 0, 0, 0, 0, 0] 1)) =
     fst (introduceRealisticOCRErrors (js ''a b'') (draws [0, 0, 0, 0, 0, 0, 0, 0, 0] 0)) \<and>
   fst (addOCRFormattingIssues (js ''a b'') (draws [0, 0, 0, 0, 0, 0, 0, 0, 0] 1)) =
     fst (addOCRFormattingIssues (js ''a b'') (draws [0, 0, 0, 0, 0, 0, 0, 0, 0] 0)) \<and>
   draws [0, 0, 0, 0, 0, 0, 0, 0, 0] 1 9 \<noteq> draws [0, 0, 0, 0, 0, 0, 0, 0, 0] 0 9"
proof -
  have agree: "\<forall>i < 3 * length (js ''a b'').
      draws [0, 0, 0, 0, 0, 0, 0, 0, 0] 1 i = draws [0, 0, 0, 0, 0, 0, 0, 0, 0] 0 i"
    by (simp add: draws_def js_def)
  have differ: "draws [0, 0, 0, 0, 0, 0, 0, 0, 0] 1 9 \<noteq> draws [0, 0, 0, 0, 0, 0, 0, 0, 0] 0 9"
    by (simp add: draws_def)
  from same_draws_same_output [of "js ''a b''" "draws [0, 0, 0, 0, 0, 0, 0, 0, 0] 1"
      "draws [0, 0, 0, 0, 0, 0, 0, 0, 0] 0"] agree differ
  show ?thesis by blast
qed

end
